theory Spec2Isabelle
  imports Complex_Main "HOL-Library.Word"
begin

unbundle bit_operations_syntax

section \<open>Machine types, errors\<close>

type_synonym uint32 = "32 word"
type_synonym uint64 = "64 word"

text \<open>
  A \<^verbatim>\<open>double\<close> is the \<open>real\<close> it denotes. Comparisons, \<open>min\<close> and \<open>max\<close> are
  those of the values. Every sum, difference and quotient of doubles, and every decimal
  literal of the source, is rounded as IEEE 754 binary64 rounds it: to the nearest double,
  a tie to the one with the even significand (\<open>round_double\<close>), each operation on its
  own (no wider intermediate format, no fused operations). Infinities and NaN are not
  part of the model, so it follows the code as long as no result reaches \<open>2^1024\<close> in
  magnitude; \<open>-0.0\<close> is 0 (the two compare equal, and both convert to 0). \<open>is_double r\<close>
  says that \<open>r\<close> is a double: rounding leaves it as it is.

  \<open>double_exponent a\<close>, for \<open>a \<ge> 0\<close>, is the exponent \<open>e\<close> of the doubles around \<open>a\<close>:
  \<open>2^e \<le> a < 2^(e+1)\<close>, and \<open>-1022\<close> below \<open>2^(-1022)\<close> (the subnormal doubles). The
  doubles there are the multiples of \<open>2^(e - 52)\<close>. From 1 on it is found by halving the
  integer part, below 1 by doubling.
\<close>

function exponent_up :: "int \<Rightarrow> int \<Rightarrow> int" where
  "exponent_up n e = (if 2 \<le> n then exponent_up (n div 2) (e + 1) else e)"
  by pat_completeness auto
termination
  by (relation "measure (\<lambda>(n, e). nat n)") auto

function exponent_down :: "real \<Rightarrow> int \<Rightarrow> int" where
  "exponent_down r e = (if r < 1 \<and> - 1022 < e then exponent_down (2 * r) (e - 1) else e)"
  by pat_completeness auto
termination
  by (relation "measure (\<lambda>(r, e). nat (e + 1022))") auto

definition double_exponent :: "real \<Rightarrow> int" where
  "double_exponent a = (if 1 \<le> a then exponent_up \<lfloor>a\<rfloor> 0 else exponent_down a 0)"

definition round_half_even :: "real \<Rightarrow> int" where
  "round_half_even x =
     (if x - of_int \<lfloor>x\<rfloor> < 1 / 2 then \<lfloor>x\<rfloor>
      else if 1 / 2 < x - of_int \<lfloor>x\<rfloor> then \<lfloor>x\<rfloor> + 1
      else if even \<lfloor>x\<rfloor> then \<lfloor>x\<rfloor> else \<lfloor>x\<rfloor> + 1)"

definition round_magnitude :: "real \<Rightarrow> real" where
  "round_magnitude a =
     (let u = 2 powi (double_exponent a - 52) in of_int (round_half_even (a / u)) * u)"

definition round_double :: "real \<Rightarrow> real" where
  "round_double r = sgn r * round_magnitude \<bar>r\<bar>"

definition is_double :: "real \<Rightarrow> bool" where
  "is_double r \<longleftrightarrow> round_double r = r"

text \<open>\<^verbatim>\<open>a + b\<close>, \<^verbatim>\<open>a - b\<close> and \<^verbatim>\<open>a / b\<close> on doubles.\<close>

definition dadd :: "real \<Rightarrow> real \<Rightarrow> real" where
  "dadd a b = round_double (a + b)"

definition dsub :: "real \<Rightarrow> real \<Rightarrow> real" where
  "dsub a b = round_double (a - b)"

definition ddiv :: "real \<Rightarrow> real \<Rightarrow> real" where
  "ddiv a b = round_double (a / b)"

text \<open>
  \<^verbatim>\<open>static_cast<uint32_t>(d)\<close> discards the fractional part (it truncates towards zero,
  so every \<open>d\<close> in \<open>(-1, 1)\<close> becomes 0). C++ leaves the conversion undefined when the
  truncated value is not in \<open>[0, 2^32)\<close>; the model wraps it modulo \<open>2^32\<close> there.
\<close>

definition truncate_double :: "real \<Rightarrow> int" where
  "truncate_double d = (if 0 \<le> d then \<lfloor>d\<rfloor> else \<lceil>d\<rceil>)"

definition to_uint32 :: "real \<Rightarrow> uint32" where
  "to_uint32 d = word_of_int (truncate_double d)"

text \<open>
  What the C++ raises or aborts with: a failed \<^verbatim>\<open>assert\<close>, the two
  \<^verbatim>\<open>std::runtime_error\<close>s of \<^verbatim>\<open>merge_and_destroy\<close>, the
  \<^verbatim>\<open>std::out_of_range\<close> of \<^verbatim>\<open>std::vector::at\<close>, and a WKB buffer that does
  not hold what is read from it.
\<close>

datatype error =
    AssertionFailed
  | MapWidthMismatch
  | TileWidthMismatch
  | OutOfRange
  | MalformedWkb

section \<open>Quadkey codec (expire-tiles.cpp)\<close>

text \<open>
  \<^verbatim>\<open>xy_coord_t\<close> of expire-tiles.hpp: the x and y index of a tile. The fields are
  called \<open>xy_x\<close> and \<open>xy_y\<close> here, so that \<open>x\<close> and \<open>y\<close> stay free for variables.
\<close>

record xy_coord_t =
  xy_x :: uint32
  xy_y :: uint32

text \<open>
  The loop of \<^verbatim>\<open>expire_tiles::xy_to_quadkey\<close>:
  \<^verbatim>\<open>for (uint32_t z = 0; z < zoom; z++) {
     quadkey |= ((x & (1ULL << z)) << z);
     quadkey |= ((y & (1ULL << z)) << (z + 1)); }\<close>
  The operands are promoted to 64 bits (\<open>ucast\<close>) before masking and shifting. The
  counter stays below \<open>zoom\<close>, so it cannot wrap and is a \<open>nat\<close> here. C++ leaves
  \<^verbatim>\<open>1ULL << z\<close> undefined for \<open>z \<ge> 64\<close>; \<open>push_bit\<close> gives 0 there.
\<close>

function xy_to_quadkey_loop :: "uint32 \<Rightarrow> uint32 \<Rightarrow> nat \<Rightarrow> nat \<Rightarrow> uint64 \<Rightarrow> uint64" where
  "xy_to_quadkey_loop x y zoom z quadkey =
     (if z < zoom then
        xy_to_quadkey_loop x y zoom (z + 1)
          ((quadkey OR push_bit z (ucast x AND push_bit z 1))
             OR push_bit (z + 1) (ucast y AND push_bit z 1))
      else quadkey)"
  by pat_completeness auto
termination
  by (relation "measure (\<lambda>(x, y, zoom, z, quadkey). zoom - z)") auto

definition xy_to_quadkey :: "uint32 \<Rightarrow> uint32 \<Rightarrow> uint32 \<Rightarrow> uint64" where
  "xy_to_quadkey x y zoom = xy_to_quadkey_loop x y (unat zoom) 0 0"

text \<open>
  The loop of \<^verbatim>\<open>expire_tiles::quadkey_to_xy\<close>, counting \<open>z\<close> down from \<open>zoom\<close> to 1;
  the equation for \<open>Suc k\<close> is the body at \<open>z = k + 1\<close>:
  \<^verbatim>\<open>result.y = result.y + static_cast<uint32_t>((quadkey_coord & (1ULL << (2 * z - 1))) >> z);
  result.x = result.x + static_cast<uint32_t>((quadkey_coord & (1ULL << (2 * (z - 1)))) >> (z - 1));\<close>
  \<^verbatim>\<open>xy_coord_t()\<close> starts both fields at 0.
\<close>

fun quadkey_to_xy_loop :: "uint64 \<Rightarrow> nat \<Rightarrow> xy_coord_t \<Rightarrow> xy_coord_t" where
  "quadkey_to_xy_loop quadkey_coord 0 result = result"
| "quadkey_to_xy_loop quadkey_coord (Suc k) result =
     quadkey_to_xy_loop quadkey_coord k
       (result\<lparr>xy_y := xy_y result
                  + ucast (drop_bit (k + 1) (quadkey_coord AND push_bit (2 * (k + 1) - 1) 1)),
               xy_x := xy_x result
                  + ucast (drop_bit k (quadkey_coord AND push_bit (2 * k) 1))\<rparr>)"

definition quadkey_to_xy :: "uint64 \<Rightarrow> uint32 \<Rightarrow> xy_coord_t" where
  "quadkey_to_xy quadkey_coord zoom =
     quadkey_to_xy_loop quadkey_coord (unat zoom) \<lparr>xy_x = 0, xy_y = 0\<rparr>"

text \<open>
  Two words used in the proofs only: the bits of a quadkey at the even positions below
  \<open>2 * k\<close> (the x index) and at the odd positions (the y index).
\<close>

definition even_bits :: "uint64 \<Rightarrow> nat \<Rightarrow> uint32" where
  "even_bits q k = horner_sum of_bool 2 (map (\<lambda>j. bit q (2 * j)) [0..<k])"

definition odd_bits :: "uint64 \<Rightarrow> nat \<Rightarrow> uint32" where
  "odd_bits q k = horner_sum of_bool 2 (map (\<lambda>j. bit q (2 * j + 1)) [0..<k])"

section \<open>The set of expired tiles (expire-tiles.hpp, expire-tiles.cpp)\<close>

text \<open>
  expire-tiles.cpp holds two versions of the file, one after the other. The definitions
  follow the second one (from line 533), which has the members expire-tiles.hpp declares
  (\<^verbatim>\<open>valid_tile_coord\<close>, \<^verbatim>\<open>from_bbox_without_buffer\<close>, \<^verbatim>\<open>expire_line\<close>).

  The data members of \<^verbatim>\<open>struct expire_tiles\<close>, without the projection.
  \<^verbatim>\<open>m_dirty_tiles\<close> is a \<^verbatim>\<open>std::unordered_set<uint64_t>\<close>: the list holds its
  elements in the order an iteration visits them, which the container does not specify.
  The container keeps the list free of duplicates (\<open>List.insert\<close> adds an element only
  when it is absent); the theorems that need this assume \<open>distinct\<close>.
\<close>

record expire_tiles =
  tile_width :: real
  max_bbox :: real
  map_width :: uint32
  maxzoom :: uint32
  last_tile_x :: uint32
  last_tile_y :: uint32
  m_dirty_tiles :: "uint64 list"

text \<open>The two constants are the doubles the literals \<^verbatim>\<open>40075016.68\<close> and \<^verbatim>\<open>0.1\<close> denote.\<close>

definition EARTH_CIRCUMFERENCE :: real where
  "EARTH_CIRCUMFERENCE = round_double 40075016.68"

definition TILE_EXPIRY_LEEWAY :: real where
  "TILE_EXPIRY_LEEWAY = round_double 0.1"

text \<open>
  The constructor. It assigns \<^verbatim>\<open>map_width\<close>, \<^verbatim>\<open>tile_width\<close> and the two
  \<^verbatim>\<open>last_tile\<close> members only when \<open>maxzoom > 0\<close>; otherwise they keep whatever the
  memory held, which is the argument \<open>uninit\<close>. \<^verbatim>\<open>1U << maxzoom\<close> is undefined in C++
  for \<open>maxzoom \<ge> 32\<close>.
\<close>

definition expire_tiles_ctor :: "uint32 \<Rightarrow> real \<Rightarrow> expire_tiles \<Rightarrow> expire_tiles" where
  "expire_tiles_ctor mz bbox uninit =
     (let s = uninit\<lparr>max_bbox := bbox, maxzoom := mz, m_dirty_tiles := []\<rparr> in
      if 0 < mz then
        let mw = push_bit (unat mz) (1 :: uint32) in
        s\<lparr>map_width := mw,
          tile_width := ddiv EARTH_CIRCUMFERENCE (real (unat mw)),
          last_tile_x := mw + 1,
          last_tile_y := mw + 1\<rparr>
      else s)"

definition valid_tile_coord :: "expire_tiles \<Rightarrow> uint32 \<Rightarrow> bool" where
  "valid_tile_coord s coord \<longleftrightarrow> coord \<le> map_width s"

definition expire_tile :: "uint32 \<Rightarrow> uint32 \<Rightarrow> expire_tiles \<Rightarrow> expire_tiles" where
  "expire_tile x y s =
     (if \<not> valid_tile_coord s x \<or> \<not> valid_tile_coord s y then s
      else if last_tile_x s \<noteq> x \<or> last_tile_y s \<noteq> y then
        s\<lparr>m_dirty_tiles := List.insert (xy_to_quadkey x y (maxzoom s)) (m_dirty_tiles s),
          last_tile_x := x,
          last_tile_y := y\<rparr>
      else s)"

text \<open>
  \<^verbatim>\<open>from_bbox_without_buffer\<close>: two nested loops over \<^verbatim>\<open>uint32_t\<close> counters with the
  test \<^verbatim>\<open>iterator <= max\<close>. With \<open>max = 2^32 - 1\<close> the counter wraps and the loop never
  ends, so the loops are partial functions and \<open>None\<close> is "does not return".
\<close>

partial_function (option) bbox_loop_y ::
    "uint32 \<Rightarrow> uint32 \<Rightarrow> uint32 \<Rightarrow> expire_tiles \<Rightarrow> expire_tiles option" where
  "bbox_loop_y iterator_x iterator_y max_y s =
     (if iterator_y \<le> max_y then
        bbox_loop_y iterator_x (iterator_y + 1) max_y (expire_tile iterator_x iterator_y s)
      else Some s)"

partial_function (option) bbox_loop_x ::
    "uint32 \<Rightarrow> uint32 \<Rightarrow> uint32 \<Rightarrow> uint32 \<Rightarrow> expire_tiles \<Rightarrow> expire_tiles option" where
  "bbox_loop_x iterator_x min_y max_x max_y s =
     (if iterator_x \<le> max_x then
        Option.bind (bbox_loop_y iterator_x min_y max_y s)
          (\<lambda>s'. bbox_loop_x (iterator_x + 1) min_y max_x max_y s')
      else Some s)"

declare bbox_loop_y.simps [code]
declare bbox_loop_x.simps [code]

definition from_bbox_without_buffer ::
    "uint32 \<Rightarrow> uint32 \<Rightarrow> uint32 \<Rightarrow> uint32 \<Rightarrow> expire_tiles \<Rightarrow> expire_tiles option" where
  "from_bbox_without_buffer min_x min_y max_x max_y s = bbox_loop_x min_x min_y max_x max_y s"

definition from_bbox :: "real \<Rightarrow> real \<Rightarrow> real \<Rightarrow> real \<Rightarrow> expire_tiles \<Rightarrow> expire_tiles option" where
  "from_bbox min_x min_y max_x max_y s =
     from_bbox_without_buffer
       (to_uint32 (dsub min_x TILE_EXPIRY_LEEWAY)) (to_uint32 (dsub min_y TILE_EXPIRY_LEEWAY))
       (to_uint32 (dadd max_x TILE_EXPIRY_LEEWAY)) (to_uint32 (dadd max_y TILE_EXPIRY_LEEWAY)) s"

text \<open>
  The other rasterisers (\<^verbatim>\<open>expire_line\<close>, \<^verbatim>\<open>expire_vertical_line\<close>,
  \<^verbatim>\<open>expire_line_segment\<close>, \<^verbatim>\<open>from_line_lon_lat\<close>, \<^verbatim>\<open>from_point\<close>,
  \<^verbatim>\<open>from_wkb\<close> and the rest) compute tile indices in floating point, through the
  projection, and touch the members only by calling \<^verbatim>\<open>expire_tile\<close>,
  \<^verbatim>\<open>from_bbox\<close> and \<^verbatim>\<open>from_bbox_without_buffer\<close>. Their effect on the set is
  that of the calls of \<^verbatim>\<open>expire_tile\<close> they make, in order.
\<close>

definition expire_tile_calls :: "(uint32 \<times> uint32) list \<Rightarrow> expire_tiles \<Rightarrow> expire_tiles" where
  "expire_tile_calls calls s = foldl (\<lambda>s' (x, y). expire_tile x y s') s calls"

text \<open>
  \<^verbatim>\<open>merge_and_destroy\<close> for two different objects. The result carries the state of
  both objects after the call, also when the call throws (it throws before it changes
  anything). After \<^verbatim>\<open>std::move\<close> and \<^verbatim>\<open>clear()\<close> the set of \<open>other\<close> is empty.
\<close>

definition merge_and_destroy ::
    "expire_tiles \<Rightarrow> expire_tiles \<Rightarrow> (error + unit) \<times> expire_tiles \<times> expire_tiles" where
  "merge_and_destroy self other =
     (if map_width self \<noteq> map_width other then (Inl MapWidthMismatch, self, other)
      else if tile_width self \<noteq> tile_width other then (Inl TileWidthMismatch, self, other)
      else
        (Inr (),
         (if length (m_dirty_tiles self) = 0
          then self\<lparr>m_dirty_tiles := m_dirty_tiles other\<rparr>
          else self\<lparr>m_dirty_tiles := fold List.insert (m_dirty_tiles other) (m_dirty_tiles self)\<rparr>),
         other\<lparr>m_dirty_tiles := []\<rparr>))"

section \<open>Pyramid output (expire-tiles.hpp)\<close>

text \<open>
  A call \<^verbatim>\<open>output_writer.output_dirty_tile(x, y, zoom)\<close>; the output of
  \<^verbatim>\<open>output_and_destroy\<close> is the list of these calls in the order they are made.
\<close>

type_synonym tile = "uint32 \<times> uint32 \<times> uint32"

text \<open>
  The inner loop \<^verbatim>\<open>for (uint32_t dz = 0; dz <= maxzoom - minzoom; dz++)\<close> from \<open>dz\<close>
  on, for the element \<open>it\<close> of the sorted vector; \<open>bound\<close> is \<open>maxzoom - minzoom\<close>.
  The counter is a \<open>nat\<close>: with \<open>minzoom \<le> maxzoom \<le> 31\<close> it never wraps.
\<close>

function output_dz_loop :: "uint32 \<Rightarrow> nat \<Rightarrow> uint64 \<Rightarrow> uint64 \<Rightarrow> nat \<Rightarrow> tile list" where
  "output_dz_loop mz bound it last_quadkey dz =
     (if dz \<le> bound then
        (let qt_current = drop_bit (dz * 2) it in
         if qt_current = drop_bit (dz * 2) last_quadkey then
           output_dz_loop mz bound it last_quadkey (dz + 1)
         else
           (let xy = quadkey_to_xy qt_current (mz - of_nat dz) in
            (xy_x xy, xy_y xy, mz - of_nat dz)
              # output_dz_loop mz bound it last_quadkey (dz + 1)))
      else [])"
  by pat_completeness auto
termination
  by (relation "measure (\<lambda>(mz, bound, it, last_quadkey, dz). Suc bound - dz)") auto

text \<open>The outer loop over the sorted vector; it ends with \<^verbatim>\<open>last_quadkey = *it\<close>.\<close>

fun output_tiles_loop :: "uint32 \<Rightarrow> nat \<Rightarrow> uint64 list \<Rightarrow> uint64 \<Rightarrow> tile list" where
  "output_tiles_loop mz bound [] last_quadkey = []"
| "output_tiles_loop mz bound (it # tiles_maxzoom) last_quadkey =
     output_dz_loop mz bound it last_quadkey 0 @ output_tiles_loop mz bound tiles_maxzoom it"

text \<open>
  \<^verbatim>\<open>output_and_destroy(output_writer, minzoom)\<close>: the assertion
  \<^verbatim>\<open>assert(minzoom <= maxzoom)\<close> (the model is the build with assertions on: a failed one
  ends the call), the sorted copy of the set, the first
  \<^verbatim>\<open>last_quadkey = 1ULL << (2 * maxzoom)\<close>, the loops. The set itself is left as it
  was. The shifts are defined in C++ for \<open>maxzoom \<le> 31\<close>.
\<close>

definition output_and_destroy :: "expire_tiles \<Rightarrow> uint32 \<Rightarrow> error + tile list" where
  "output_and_destroy s minzoom =
     (if minzoom \<le> maxzoom s then
        Inr (output_tiles_loop (maxzoom s) (unat (maxzoom s - minzoom))
               (sort (m_dirty_tiles s)) (push_bit (2 * unat (maxzoom s)) 1))
      else Inl AssertionFailed)"

text \<open>
  For the statements about the output: the tile that contains the tile with quadkey
  \<open>q\<close> at zoom \<open>mz\<close>, \<open>d\<close> levels up (both indices halved \<open>d\<close> times); the quadkey of
  an emitted tile at its own zoom; the zoom of an emitted tile; and the range of the
  quadkeys of zoom \<open>maxzoom\<close>, the numbers below \<^verbatim>\<open>1ULL << (2 * maxzoom)\<close>.
\<close>

definition ancestor_tile :: "uint32 \<Rightarrow> uint64 \<Rightarrow> nat \<Rightarrow> tile" where
  "ancestor_tile mz q d =
     (let xy = quadkey_to_xy q mz in (drop_bit d (xy_x xy), drop_bit d (xy_y xy), mz - of_nat d))"

definition tile_quadkey :: "tile \<Rightarrow> uint64" where
  "tile_quadkey t = (case t of (x, y, zoom) \<Rightarrow> xy_to_quadkey x y zoom)"

definition tile_zoom :: "tile \<Rightarrow> uint32" where
  "tile_zoom t = (case t of (x, y, zoom) \<Rightarrow> zoom)"

text \<open>
  Used in the proofs only: the tile the inner loop writes in round \<open>dz\<close> for the shifted
  quadkey \<open>qc\<close>; the shifted quadkey one element contributes to level \<open>dz\<close>, if any;
  and the shifted quadkeys the whole vector contributes to level \<open>dz\<close>, in order.
\<close>

definition emitted_tile :: "uint32 \<Rightarrow> nat \<Rightarrow> uint64 \<Rightarrow> tile" where
  "emitted_tile mz dz qc =
     (xy_x (quadkey_to_xy qc (mz - of_nat dz)), xy_y (quadkey_to_xy qc (mz - of_nat dz)),
      mz - of_nat dz)"

definition emit_key :: "uint64 \<Rightarrow> uint64 \<Rightarrow> nat \<Rightarrow> uint64 list" where
  "emit_key it last_quadkey dz =
     (if drop_bit (dz * 2) it = drop_bit (dz * 2) last_quadkey then [] else [drop_bit (dz * 2) it])"

fun level_keys :: "nat \<Rightarrow> uint64 list \<Rightarrow> uint64 \<Rightarrow> uint64 list" where
  "level_keys dz [] last_quadkey = []"
| "level_keys dz (it # tiles_maxzoom) last_quadkey =
     emit_key it last_quadkey dz @ level_keys dz tiles_maxzoom it"

definition quadkeys_in_range :: "expire_tiles \<Rightarrow> bool" where
  "quadkeys_in_range s \<longleftrightarrow>
     list_all (\<lambda>q. q < push_bit (2 * unat (maxzoom s)) 1) (m_dirty_tiles s)"

text \<open>
  What the constructor establishes for \<open>0 < maxzoom \<le> 31\<close> and no operation changes.
\<close>

definition configured :: "expire_tiles \<Rightarrow> bool" where
  "configured s \<longleftrightarrow>
     0 < maxzoom s \<and> maxzoom s \<le> 31 \<and> map_width s = push_bit (unat (maxzoom s)) 1"

section \<open>Tiles inside a polygon (intersecting\_tiles.hpp, intersecting\_tiles.cpp)\<close>

text \<open>
  The data members of \<^verbatim>\<open>class intersecting_tiles_t\<close>; the member
  \<^verbatim>\<open>TILE_EXPIRY_LEEWAY\<close> of the class is the field \<open>leeway\<close>.
\<close>

record intersecting_tiles_t =
  offset_x :: uint32
  max_tile_id :: uint32
  leeway :: real
  min_bounds :: "uint32 list list"
  max_bounds :: "uint32 list list"
  current_x :: uint32
  next_idx_min :: uint32
  next_idx_max :: uint32

definition intersecting_tiles_ctor :: "real \<Rightarrow> real \<Rightarrow> uint32 \<Rightarrow> real \<Rightarrow> intersecting_tiles_t" where
  "intersecting_tiles_ctor x_min x_max mw lw =
     \<lparr>offset_x = to_uint32 (dsub x_min lw),
      max_tile_id = mw,
      leeway = lw,
      min_bounds = replicate (unat (to_uint32 (dadd x_max lw) - to_uint32 (dsub x_min lw) + 1)) [],
      max_bounds = replicate (unat (to_uint32 (dadd x_max lw) - to_uint32 (dsub x_min lw) + 1)) [],
      current_x = 0,
      next_idx_min = 0,
      next_idx_max = 0\<rparr>"

definition get_x_index :: "intersecting_tiles_t \<Rightarrow> uint32 \<Rightarrow> uint32" where
  "get_x_index t x = x - offset_x t"

text \<open>
  \<^verbatim>\<open>min_bounds.at(i).emplace_back(v)\<close>: \<^verbatim>\<open>at\<close> throws when the column is not
  there.
\<close>

definition add_minimum :: "uint32 \<Rightarrow> real \<Rightarrow> intersecting_tiles_t \<Rightarrow> error + intersecting_tiles_t" where
  "add_minimum x mn t =
     (let i = unat (get_x_index t x) in
      if i < length (min_bounds t) then
        Inr (t\<lparr>min_bounds :=
               (min_bounds t)[i := min_bounds t ! i @ [to_uint32 (dsub mn (leeway t))]]\<rparr>)
      else Inl OutOfRange)"

definition add_maximum :: "uint32 \<Rightarrow> real \<Rightarrow> intersecting_tiles_t \<Rightarrow> error + intersecting_tiles_t" where
  "add_maximum x mx t =
     (let i = unat (get_x_index t x) in
      if i < length (max_bounds t) then
        Inr (t\<lparr>max_bounds :=
               (max_bounds t)[i := max_bounds t ! i @ [to_uint32 (dadd mx (leeway t))]]\<rparr>)
      else Inl OutOfRange)"

definition add_minimum_or_maximum ::
    "uint32 \<Rightarrow> real \<Rightarrow> real \<Rightarrow> bool \<Rightarrow> intersecting_tiles_t \<Rightarrow> error + intersecting_tiles_t" where
  "add_minimum_or_maximum x y1 y2 interior_above t =
     (if interior_above then add_maximum x (max y1 y2) t else add_minimum x (min y1 y2) t)"

text \<open>
  The loop \<^verbatim>\<open>for (uint32_t x = start; x <= end; ++x)\<close> of \<^verbatim>\<open>evaluate_segment\<close>
  from \<open>x\<close> on. It never ends by itself when \<open>end = 2^32 - 1\<close>, so it is a partial
  function; an exception ends it with \<open>Some (Inl _)\<close>.
\<close>

partial_function (option) stripe_loop ::
    "uint32 \<Rightarrow> uint32 \<Rightarrow> real \<Rightarrow> real \<Rightarrow> bool \<Rightarrow> uint32 \<Rightarrow> intersecting_tiles_t
       \<Rightarrow> (error + intersecting_tiles_t) option" where
  "stripe_loop start end y1 y2 interior_above x t =
     (if x \<le> end then
        (case add_minimum_or_maximum x y1 y2 interior_above t of
           Inl e \<Rightarrow> Some (Inl e)
         | Inr t1 \<Rightarrow>
             (case (if x \<noteq> start \<and> x \<noteq> end
                    then add_minimum_or_maximum x y1 y2 interior_above t1 else Inr t1) of
                Inl e \<Rightarrow> Some (Inl e)
              | Inr t2 \<Rightarrow> stripe_loop start end y1 y2 interior_above (x + 1) t2))
      else Some (Inr t))"

declare stripe_loop.simps [code]

text \<open>
  \<^verbatim>\<open>evaluate_segment\<close>. \<^verbatim>\<open>interior_side_above\<close> compares \<^verbatim>\<open>std::atan2\<close> of the
  differences with \<^verbatim>\<open>PI / 2\<close> in floating point; it is the first argument here. The
  branch for a segment inside one column does not call it.
\<close>

definition evaluate_segment ::
    "(real \<Rightarrow> real \<Rightarrow> real \<Rightarrow> real \<Rightarrow> bool) \<Rightarrow> real \<Rightarrow> real \<Rightarrow> real \<Rightarrow> real \<Rightarrow> bool
       \<Rightarrow> intersecting_tiles_t \<Rightarrow> (error + intersecting_tiles_t) option" where
  "evaluate_segment interior_side_above x1 y1 x2 y2 outer_ring t =
     (if to_uint32 (dsub (min x1 x2) (leeway t)) = to_uint32 (dadd (max x1 x2) (leeway t)) then
        (case add_minimum (to_uint32 x1) (min y1 y2) t of
           Inl e \<Rightarrow> Some (Inl e)
         | Inr t1 \<Rightarrow> Some (add_maximum (to_uint32 x1) (max y1 y2) t1))
      else
        (let interior_above = interior_side_above x1 y1 x2 y2;
             (x1', y1', x2', y2') = (if x2 < x1 then (x2, y2, x1, y1) else (x1, y1, x2, y2));
             start = to_uint32 (dsub x1' (leeway t));
             end = to_uint32 (dadd x2' (leeway t))
         in stripe_loop start end y1' y2' interior_above start t))"

text \<open>
  The value of \<^verbatim>\<open>interior_side_above\<close> when \<^verbatim>\<open>atan2\<close> and the comparisons
  are exact: the angle of \<open>(x2 - x1, y1 - y2)\<close> lies strictly between \<open>-\<pi>/2\<close> and
  \<open>\<pi>/2\<close> when \<open>x2 - x1\<close> is positive, and \<^verbatim>\<open>atan2(0, 0)\<close> is 0. It serves as the
  argument of \<open>evaluate_segment\<close> in the concrete evaluations below.
\<close>

definition interior_side_above_exact :: "real \<Rightarrow> real \<Rightarrow> real \<Rightarrow> real \<Rightarrow> bool" where
  "interior_side_above_exact x1 y1 x2 y2 \<longleftrightarrow> 0 < x2 - x1 \<or> (x2 - x1 = 0 \<and> y1 - y2 = 0)"

section \<open>Polygons from WKB (expire-tiles.cpp)\<close>

text \<open>
  Modelled from the spec: \<^verbatim>\<open>ewkb::parser_t\<close> of wkb.hpp, which is not among the
  sources. The spec gives it \<^verbatim>\<open>read_length() -> u32\<close>, \<^verbatim>\<open>read_point() -> {x, y}\<close>
  and \<^verbatim>\<open>save_pos()\<close>/\<^verbatim>\<open>rewind(pos)\<close> over a buffer. The buffer is a list of the
  items it holds and the position is an index into it; reading an item of the other kind,
  or past the end, is \<open>Inl MalformedWkb\<close>.
\<close>

datatype wkb_item = WkbLength uint32 | WkbPoint real real

record parser_t =
  wkb_items :: "wkb_item list"
  wkb_pos :: nat

definition read_length :: "parser_t \<Rightarrow> error + uint32 \<times> parser_t" where
  "read_length wkb =
     (if wkb_pos wkb < length (wkb_items wkb) then
        (case wkb_items wkb ! wkb_pos wkb of
           WkbLength n \<Rightarrow> Inr (n, wkb\<lparr>wkb_pos := wkb_pos wkb + 1\<rparr>)
         | WkbPoint px py \<Rightarrow> Inl MalformedWkb)
      else Inl MalformedWkb)"

definition read_point :: "parser_t \<Rightarrow> error + (real \<times> real) \<times> parser_t" where
  "read_point wkb =
     (if wkb_pos wkb < length (wkb_items wkb) then
        (case wkb_items wkb ! wkb_pos wkb of
           WkbPoint px py \<Rightarrow> Inr ((px, py), wkb\<lparr>wkb_pos := wkb_pos wkb + 1\<rparr>)
         | WkbLength n \<Rightarrow> Inl MalformedWkb)
      else Inl MalformedWkb)"

definition save_pos :: "parser_t \<Rightarrow> nat" where
  "save_pos wkb = wkb_pos wkb"

definition rewind :: "nat \<Rightarrow> parser_t \<Rightarrow> parser_t" where
  "rewind pos wkb = wkb\<lparr>wkb_pos := pos\<rparr>"

text \<open>
  \<^verbatim>\<open>from_wkb_point\<close> and \<^verbatim>\<open>from_wkb_line\<close>. \<^verbatim>\<open>from_point\<close> and
  \<^verbatim>\<open>from_line_lon_lat\<close> go through the projection, which is not among the sources:
  they are the arguments \<open>fpoint\<close> and \<open>fline\<close>, acting on a state \<open>'s\<close>.
\<close>

definition from_wkb_point ::
    "(real \<Rightarrow> real \<Rightarrow> 's \<Rightarrow> 's) \<Rightarrow> parser_t \<Rightarrow> 's \<Rightarrow> error + parser_t \<times> 's" where
  "from_wkb_point fpoint wkb s =
     (case read_point wkb of
        Inl e \<Rightarrow> Inl e
      | Inr (c, wkb') \<Rightarrow> Inr (wkb', fpoint (fst c) (snd c) s))"

text \<open>The loop \<^verbatim>\<open>for (size_t i = 1; i < sz; ++i)\<close> with \<open>n\<close> rounds left.\<close>

fun from_wkb_line_loop ::
    "(real \<Rightarrow> real \<Rightarrow> real \<Rightarrow> real \<Rightarrow> 's \<Rightarrow> 's) \<Rightarrow> nat \<Rightarrow> real \<times> real \<Rightarrow> parser_t \<Rightarrow> 's
       \<Rightarrow> error + parser_t \<times> 's" where
  "from_wkb_line_loop fline 0 prev wkb s = Inr (wkb, s)"
| "from_wkb_line_loop fline (Suc n) prev wkb s =
     (case read_point wkb of
        Inl e \<Rightarrow> Inl e
      | Inr (cur, wkb') \<Rightarrow>
          from_wkb_line_loop fline n cur wkb' (fline (fst prev) (snd prev) (fst cur) (snd cur) s))"

definition from_wkb_line ::
    "(real \<Rightarrow> real \<Rightarrow> 's \<Rightarrow> 's) \<Rightarrow> (real \<Rightarrow> real \<Rightarrow> real \<Rightarrow> real \<Rightarrow> 's \<Rightarrow> 's) \<Rightarrow> parser_t \<Rightarrow> 's
       \<Rightarrow> error + parser_t \<times> 's" where
  "from_wkb_line fpoint fline wkb s =
     (case read_length wkb of
        Inl e \<Rightarrow> Inl e
      | Inr (sz, wkb1) \<Rightarrow>
          if sz = 0 then Inr (wkb1, s)
          else if sz = 1 then from_wkb_point fpoint wkb1 s
          else
            (case read_point wkb1 of
               Inl e \<Rightarrow> Inl e
             | Inr (prev, wkb2) \<Rightarrow> from_wkb_line_loop fline (unat sz - 1) prev wkb2 s))"

text \<open>
  The bounding box loop of \<^verbatim>\<open>from_wkb_polygon\<close>, with \<open>n\<close> rounds left; \<open>mn\<close> and
  \<open>mx\<close> are \<^verbatim>\<open>min\<close> and \<^verbatim>\<open>max\<close>.
\<close>

fun polygon_bbox_loop ::
    "nat \<Rightarrow> real \<times> real \<Rightarrow> real \<times> real \<Rightarrow> parser_t \<Rightarrow> error + ((real \<times> real) \<times> (real \<times> real)) \<times> parser_t" where
  "polygon_bbox_loop 0 mn mx wkb = Inr ((mn, mx), wkb)"
| "polygon_bbox_loop (Suc n) mn mx wkb =
     (case read_point wkb of
        Inl e \<Rightarrow> Inl e
      | Inr (c, wkb') \<Rightarrow>
          polygon_bbox_loop n
            (if fst c < fst mn then fst c else fst mn, if snd c < snd mn then snd c else snd mn)
            (if fst c > fst mx then fst c else fst mx, if snd c > snd mx then snd c else snd mx)
            wkb')"

text \<open>
  \<^verbatim>\<open>from_wkb_polygon\<close> up to the end of the branch for bounding boxes larger than
  \<^verbatim>\<open>max_bbox\<close>. In that branch the body of
  \<^verbatim>\<open>for (unsigned ring = 0; ring < num_rings; ++ring)\<close> ends with \<^verbatim>\<open>return\<close>, so it
  runs once, for \<open>ring = 0\<close>. The rest of the function (projecting the bounding box,
  the scan over the columns) needs the projection and is the argument \<open>fill\<close>, which
  gets the bounding box, the number of rings, the rewound parser and the state.
\<close>

definition from_wkb_polygon ::
    "(real \<Rightarrow> real \<Rightarrow> 's \<Rightarrow> 's) \<Rightarrow> (real \<Rightarrow> real \<Rightarrow> real \<Rightarrow> real \<Rightarrow> 's \<Rightarrow> 's)
       \<Rightarrow> (real \<times> real \<Rightarrow> real \<times> real \<Rightarrow> uint32 \<Rightarrow> parser_t \<Rightarrow> 's \<Rightarrow> error + parser_t \<times> 's)
       \<Rightarrow> real \<Rightarrow> parser_t \<Rightarrow> 's \<Rightarrow> error + parser_t \<times> 's" where
  "from_wkb_polygon fpoint fline fill bbox_limit wkb s =
     (case read_length wkb of
        Inl e \<Rightarrow> Inl e
      | Inr (num_rings, wkb1) \<Rightarrow>
          if \<not> num_rings > 0 then Inl AssertionFailed
          else
            (let start = save_pos wkb1 in
             case read_length wkb1 of
               Inl e \<Rightarrow> Inl e
             | Inr (num_pt, wkb2) \<Rightarrow>
                 (case read_point wkb2 of
                    Inl e \<Rightarrow> Inl e
                  | Inr (initpt, wkb3) \<Rightarrow>
                      (case polygon_bbox_loop (unat num_pt - 1) initpt initpt wkb3 of
                         Inl e \<Rightarrow> Inl e
                       | Inr ((mn, mx), wkb4) \<Rightarrow>
                           (let wkb5 = rewind start wkb4 in
                            if dsub (fst mx) (fst mn) > bbox_limit
                               \<or> dsub (snd mx) (snd mn) > bbox_limit
                            then from_wkb_line fpoint fline (rewind start wkb5) s
                            else fill mn mx num_rings wkb5 s)))))"

text \<open>
  A rasteriser that only records the calls it gets, to observe which rings reach
  \<^verbatim>\<open>from_point\<close> and \<^verbatim>\<open>from_line_lon_lat\<close>.
\<close>

datatype rasterizer_call = FromPoint real real | FromLineLonLat real real real real

definition log_point :: "real \<Rightarrow> real \<Rightarrow> rasterizer_call list \<Rightarrow> rasterizer_call list" where
  "log_point lon lat calls = calls @ [FromPoint lon lat]"

definition log_line ::
    "real \<Rightarrow> real \<Rightarrow> real \<Rightarrow> real \<Rightarrow> rasterizer_call list \<Rightarrow> rasterizer_call list" where
  "log_line lon_a lat_a lon_b lat_b calls = calls @ [FromLineLonLat lon_a lat_a lon_b lat_b]"

text \<open>
  The calls \<^verbatim>\<open>from_wkb_line\<close> makes for a ring given as the list of its points, to
  state what expiring a ring as a linestring is.
\<close>

fun ring_as_line :: "(real \<times> real) list \<Rightarrow> rasterizer_call list" where
  "ring_as_line [] = []"
| "ring_as_line [p] = [FromPoint (fst p) (snd p)]"
| "ring_as_line (p # p' # ps) =
     FromLineLonLat (fst p) (snd p) (fst p') (snd p')
       # (if ps = [] then [] else ring_as_line (p' # ps))"

definition ring_items :: "(real \<times> real) list \<Rightarrow> wkb_item list" where
  "ring_items ps = WkbLength (of_nat (length ps)) # map (\<lambda>p. WkbPoint (fst p) (snd p)) ps"

definition polygon_items :: "(real \<times> real) list list \<Rightarrow> wkb_item list" where
  "polygon_items rings = WkbLength (of_nat (length rings)) # concat (map ring_items rings)"

section \<open>Concrete states\<close>

text \<open>
  An object as the constructor leaves it for \<open>maxzoom = 2\<close> (\<open>map_width = 4\<close>), holding
  the quadkeys \<open>qs\<close>; \<open>uninit0\<close> stands for the memory before the constructor runs.
\<close>

definition uninit0 :: expire_tiles where
  "uninit0 = \<lparr>tile_width = 0, max_bbox = 0, map_width = 0, maxzoom = 0,
              last_tile_x = 0, last_tile_y = 0, m_dirty_tiles = []\<rparr>"

definition zoom2_state :: "uint64 list \<Rightarrow> expire_tiles" where
  "zoom2_state qs = (expire_tiles_ctor 2 20037508.34 uninit0)\<lparr>m_dirty_tiles := qs\<rparr>"

section \<open>Rounding to double\<close>

declare exponent_up.simps [simp del]
declare exponent_down.simps [simp del]

lemma powi2_Suc: "(2::real) powi (k + 1) = 2 * 2 powi k"
  by (simp add: power_int_add)

lemma exponent_up_range:
  assumes "1 \<le> n"
  shows "2 powi (exponent_up n e - e) \<le> (of_int n :: real)
         \<and> (of_int n :: real) + 1 \<le> 2 powi (exponent_up n e - e + 1)
         \<and> e \<le> exponent_up n e"
  using assms
proof (induction n e rule: exponent_up.induct)
  case (1 n e)
  show ?case
  proof (cases "2 \<le> n")
    case True
    then have "1 \<le> n div 2" by simp
    from "1.IH" [OF True this]
    have lo: "2 powi (exponent_up (n div 2) (e + 1) - (e + 1)) \<le> (of_int (n div 2) :: real)"
      and hi: "(of_int (n div 2) :: real) + 1 \<le> 2 powi (exponent_up (n div 2) (e + 1) - (e + 1) + 1)"
      and le: "e + 1 \<le> exponent_up (n div 2) (e + 1)" by simp_all
    have eq: "exponent_up n e = exponent_up (n div 2) (e + 1)"
      using True by (subst exponent_up.simps) simp
    have a: "exponent_up n e - e = (exponent_up n e - (e + 1)) + 1" by simp
    have "2 * (n div 2) \<le> n" and "n \<le> 2 * (n div 2) + 1" by simp_all
    then have "(of_int (2 * (n div 2)) :: real) \<le> of_int n"
      and "(of_int n :: real) \<le> of_int (2 * (n div 2) + 1)"
      by (simp_all only: of_int_le_iff)
    then have d: "2 * (of_int (n div 2) :: real) \<le> of_int n"
      and u: "(of_int n :: real) \<le> 2 * of_int (n div 2) + 1"
      by simp_all
    from lo d have "2 powi (exponent_up n e - e) \<le> (of_int n :: real)"
      unfolding eq [symmetric] by (subst a, subst powi2_Suc) simp
    moreover from hi u have "(of_int n :: real) + 1 \<le> 2 powi (exponent_up n e - e + 1)"
      unfolding eq [symmetric] by (subst powi2_Suc, subst a) simp
    ultimately show ?thesis using le eq by simp
  next
    case False
    then have "exponent_up n e = e" by (subst exponent_up.simps) simp
    moreover from False "1.prems" have "n = 1" by simp
    ultimately show ?thesis by simp
  qed
qed

lemma exponent_down_range:
  assumes "r < 2" and "- 1022 \<le> e"
  shows "r * 2 powi e < 2 powi (exponent_down r e + 1)
         \<and> (2 powi exponent_down r e \<le> r * 2 powi e \<or> exponent_down r e = - 1022)
         \<and> - 1022 \<le> exponent_down r e"
  using assms
proof (induction r e rule: exponent_down.induct)
  case (1 r e)
  show ?case
  proof (cases "r < 1 \<and> - 1022 < e")
    case True
    then have "2 * r < 2" "- 1022 \<le> e - 1" by simp_all
    from "1.IH" [OF True this]
    have IH: "2 * r * 2 powi (e - 1) < 2 powi (exponent_down (2 * r) (e - 1) + 1)
         \<and> (2 powi exponent_down (2 * r) (e - 1) \<le> 2 * r * 2 powi (e - 1)
             \<or> exponent_down (2 * r) (e - 1) = - 1022)
         \<and> - 1022 \<le> exponent_down (2 * r) (e - 1)" .
    have eq: "exponent_down r e = exponent_down (2 * r) (e - 1)"
      using True by (subst exponent_down.simps) simp
    have "(2::real) powi e = 2 * 2 powi (e - 1)"
      using powi2_Suc [of "e - 1"] by simp
    then have "2 * r * 2 powi (e - 1) = r * 2 powi e" by simp
    with IH show ?thesis unfolding eq by simp
  next
    case False
    then have eq: "exponent_down r e = e" by (subst exponent_down.simps) auto
    have pos: "0 < (2::real) powi e" by simp
    from "1.prems"(1) pos have "r * 2 powi e < 2 * 2 powi e" by simp
    then have hi: "r * 2 powi e < 2 powi (e + 1)" by (simp add: powi2_Suc)
    from False "1.prems"(2) have "1 \<le> r \<or> e = - 1022" by auto
    then have "2 powi e \<le> r * 2 powi e \<or> e = - 1022"
      using pos by auto
    with hi "1.prems"(2) show ?thesis unfolding eq by simp
  qed
qed

lemma double_exponent_range:
  "a < 2 powi (double_exponent a + 1)
   \<and> (2 powi double_exponent a \<le> a \<or> double_exponent a = - 1022)
   \<and> - 1022 \<le> double_exponent a"
proof (cases "1 \<le> a")
  case True
  then have "1 \<le> \<lfloor>a\<rfloor>" by (simp add: le_floor_iff)
  from exponent_up_range [OF this, of 0]
  have "2 powi exponent_up \<lfloor>a\<rfloor> 0 \<le> (of_int \<lfloor>a\<rfloor> :: real)"
    and "(of_int \<lfloor>a\<rfloor> :: real) + 1 \<le> 2 powi (exponent_up \<lfloor>a\<rfloor> 0 + 1)"
    and "0 \<le> exponent_up \<lfloor>a\<rfloor> 0" by simp_all
  moreover have "of_int \<lfloor>a\<rfloor> \<le> a" and "a < of_int \<lfloor>a\<rfloor> + 1" by linarith+
  ultimately have "a < 2 powi (exponent_up \<lfloor>a\<rfloor> 0 + 1)"
    and "2 powi exponent_up \<lfloor>a\<rfloor> 0 \<le> a" and "- 1022 \<le> exponent_up \<lfloor>a\<rfloor> 0"
    by linarith+
  with True show ?thesis
    by (simp add: double_exponent_def)
next
  case False
  then have "a < 2" by simp
  from exponent_down_range [OF this, of 0] False show ?thesis
    by (simp add: double_exponent_def)
qed

lemma double_exponent_mono:
  assumes "a \<le> b"
  shows "double_exponent a \<le> double_exponent b"
proof (rule ccontr)
  assume "\<not> double_exponent a \<le> double_exponent b"
  then have lt: "double_exponent b + 1 \<le> double_exponent a" by simp
  with double_exponent_range [of b] have "- 1022 < double_exponent a" by simp
  with double_exponent_range [of a] have "2 powi double_exponent a \<le> a" by auto
  also note assms
  also from double_exponent_range [of b] have "b < 2 powi (double_exponent b + 1)" by simp
  also from lt have "(2::real) powi (double_exponent b + 1) \<le> 2 powi double_exponent a"
    by (intro power_int_increasing) simp_all
  finally show False by simp
qed

lemma round_half_even_of_int [simp]: "round_half_even (of_int n) = n"
  by (simp add: round_half_even_def)

lemma round_half_even_mono:
  assumes "x \<le> y"
  shows "round_half_even x \<le> round_half_even y"
proof -
  from assms have f: "\<lfloor>x\<rfloor> \<le> \<lfloor>y\<rfloor>" by (rule floor_mono)
  show ?thesis
  proof (cases "\<lfloor>x\<rfloor> = \<lfloor>y\<rfloor>")
    case True
    with assms show ?thesis by (auto simp add: round_half_even_def)
  next
    case False
    with f have "\<lfloor>x\<rfloor> + 1 \<le> \<lfloor>y\<rfloor>" by simp
    moreover have "round_half_even x \<le> \<lfloor>x\<rfloor> + 1" "\<lfloor>y\<rfloor> \<le> round_half_even y"
      by (auto simp add: round_half_even_def)
    ultimately show ?thesis by simp
  qed
qed


lemma ulp_times: "(2::real) powi (e - 52) * 2 ^ 52 = 2 powi e"
  and ulp_times2: "(2::real) powi (e - 52) * 2 ^ 53 = 2 powi (e + 1)"
proof -
  have "(2::real) powi (e - 52) * 2 powi 52 = 2 powi (e - 52 + 52)"
    by (subst power_int_add) simp_all
  then show "(2::real) powi (e - 52) * 2 ^ 52 = 2 powi e" by simp
  have "(2::real) powi (e - 52) * 2 powi 53 = 2 powi (e - 52 + 53)"
    by (subst power_int_add) simp_all
  then show "(2::real) powi (e - 52) * 2 ^ 53 = 2 powi (e + 1)" by (simp add: add.commute)
qed

lemma round_magnitude_nonneg:
  assumes "0 \<le> a"
  shows "0 \<le> round_magnitude a"
proof -
  let ?u = "(2::real) powi (double_exponent a - 52)"
  from assms have "0 \<le> a / ?u" by simp
  from round_half_even_mono [OF this] have "0 \<le> round_half_even (a / ?u)"
    using round_half_even_of_int [of 0] by simp
  then show ?thesis by (simp add: round_magnitude_def Let_def)
qed

lemma round_magnitude_lower:
  assumes "2 powi double_exponent a \<le> a"
  shows "2 powi double_exponent a \<le> round_magnitude a"
proof -
  let ?u = "(2::real) powi (double_exponent a - 52)"
  have u: "0 < ?u" by simp
  from assms have "?u * 2 ^ 52 \<le> a" by (simp only: ulp_times)
  with u have "of_int (2 ^ 52) \<le> a / ?u" by (simp add: pos_le_divide_eq mult.commute)
  from round_half_even_mono [OF this] have "2 ^ 52 \<le> round_half_even (a / ?u)"
    by (simp only: round_half_even_of_int)
  then have "(2::real) ^ 52 \<le> of_int (round_half_even (a / ?u))"
    by (metis of_int_le_iff of_int_numeral of_int_power)
  with u have "?u * 2 ^ 52 \<le> of_int (round_half_even (a / ?u)) * ?u"
    by (simp add: mult.commute)
  then show ?thesis by (simp only: ulp_times round_magnitude_def Let_def)
qed

lemma round_magnitude_upper:
  "round_magnitude a \<le> 2 powi (double_exponent a + 1)"
proof -
  let ?u = "(2::real) powi (double_exponent a - 52)"
  have u: "0 < ?u" by simp
  from double_exponent_range [of a] have "a \<le> ?u * 2 ^ 53" by (simp only: ulp_times2) simp
  with u have "a / ?u \<le> of_int (2 ^ 53)" by (simp add: pos_divide_le_eq mult.commute)
  from round_half_even_mono [OF this] have "round_half_even (a / ?u) \<le> 2 ^ 53"
    by (simp only: round_half_even_of_int)
  then have "of_int (round_half_even (a / ?u)) \<le> (2::real) ^ 53"
    by (metis of_int_le_iff of_int_numeral of_int_power)
  with u have "of_int (round_half_even (a / ?u)) * ?u \<le> ?u * 2 ^ 53"
    by (simp add: mult.commute)
  then show ?thesis by (simp only: ulp_times2 round_magnitude_def Let_def)
qed

lemma round_magnitude_mono:
  assumes "a \<le> b"
  shows "round_magnitude a \<le> round_magnitude b"
proof (cases "double_exponent a = double_exponent b")
  case True
  let ?u = "(2::real) powi (double_exponent b - 52)"
  have u: "0 < ?u" by simp
  with assms have "a / ?u \<le> b / ?u" by (simp add: divide_right_mono)
  from round_half_even_mono [OF this] u show ?thesis
    by (simp add: round_magnitude_def Let_def True)
next
  case False
  with double_exponent_mono [OF assms] have lt: "double_exponent a + 1 \<le> double_exponent b"
    by simp
  with double_exponent_range [of a] have "- 1022 < double_exponent b" by simp
  with double_exponent_range [of b] have nb: "2 powi double_exponent b \<le> b" by auto
  note round_magnitude_upper [of a]
  also from lt have "(2::real) powi (double_exponent a + 1) \<le> 2 powi double_exponent b"
    by (intro power_int_increasing) simp_all
  also note round_magnitude_lower [OF nb]
  finally show ?thesis .
qed

lemma round_double_mono:
  assumes "r \<le> s"
  shows "round_double r \<le> round_double s"
proof -
  consider "0 \<le> r" | "r < 0" "0 \<le> s" | "s < 0" using assms by linarith
  then show ?thesis
  proof cases
    case 1
    with assms have "\<bar>r\<bar> \<le> \<bar>s\<bar>" by simp
    from round_magnitude_mono [OF this] 1 assms show ?thesis
      by (cases "r = 0"; cases "s = 0") (auto simp add: round_double_def sgn_if round_magnitude_nonneg)
  next
    case 2
    then have "0 \<le> round_magnitude \<bar>r\<bar>" "0 \<le> round_magnitude \<bar>s\<bar>"
      by (simp_all add: round_magnitude_nonneg)
    with 2 show ?thesis by (auto simp add: round_double_def sgn_if)
  next
    case 3
    with assms have "\<bar>s\<bar> \<le> \<bar>r\<bar>" by simp
    from round_magnitude_mono [OF this] 3 assms show ?thesis
      by (auto simp add: round_double_def sgn_if)
  qed
qed

lemma dsub_le:
  assumes "is_double a" and "0 \<le> b"
  shows "dsub a b \<le> a"
proof -
  from assms(2) have "a - b \<le> a" by simp
  from round_double_mono [OF this] assms(1) show ?thesis
    by (simp add: dsub_def is_double_def)
qed

lemma dadd_ge:
  assumes "is_double a" and "0 \<le> b"
  shows "a \<le> dadd a b"
proof -
  from assms(2) have "a \<le> a + b" by simp
  from round_double_mono [OF this] assms(1) show ?thesis
    by (simp add: dadd_def is_double_def)
qed

lemma is_double_min_max:
  assumes "is_double a" and "is_double b"
  shows "is_double (min a b)" and "is_double (max a b)"
  using assms by (simp_all add: min_def max_def)

section \<open>The quadkey codec, bit by bit\<close>

declare xy_to_quadkey_loop.simps [simp del]

lemma bit_place:
  "bit (push_bit m (ucast (w::uint32) AND push_bit z (1::uint64))) n
     \<longleftrightarrow> n = m + z \<and> n < 64 \<and> bit w z"
  by (auto simp add: bit_simps dest: bit_imp_le_length)

lemma bit_pick:
  "bit (ucast (drop_bit m ((q::uint64) AND push_bit j 1)) :: uint32) n
     \<longleftrightarrow> m + n = j \<and> n < 32 \<and> bit q j"
  by (auto simp add: bit_simps dest: bit_imp_le_length)

lemma bit_xy_to_quadkey_loop:
  "bit (xy_to_quadkey_loop x y zoom z q) n \<longleftrightarrow>
     bit q n \<or> (2 * z \<le> n \<and> n < 2 * zoom \<and> (if even n then bit x (n div 2) else bit y (n div 2)))"
proof (induction x y zoom z q rule: xy_to_quadkey_loop.induct)
  case (1 x y zoom z q)
  show ?case
  proof (cases "z < zoom")
    case False
    then show ?thesis by (auto simp add: xy_to_quadkey_loop.simps [of x y zoom z q])
  next
    case True
    have hx: "bit x z \<Longrightarrow> 2 * z < 64" and hy: "bit y z \<Longrightarrow> 2 * z + 1 < 64"
      using bit_imp_le_length [of x z] bit_imp_le_length [of y z] by auto
    have "bit (xy_to_quadkey_loop x y zoom z q) n \<longleftrightarrow>
        (bit q n \<or> (n = 2 * z \<and> bit x z) \<or> (n = 2 * z + 1 \<and> bit y z))
        \<or> (2 * (z + 1) \<le> n \<and> n < 2 * zoom \<and> (if even n then bit x (n div 2) else bit y (n div 2)))"
      apply (subst xy_to_quadkey_loop.simps)
      apply (simp only: True if_True "1.IH" [OF True] bit_or_iff bit_place)
      using hx hy apply auto
      done
    also have "\<dots> \<longleftrightarrow> bit q n \<or> (2 * z \<le> n \<and> n < 2 * zoom \<and> (if even n then bit x (n div 2) else bit y (n div 2)))"
    proof -
      have "2 * z \<le> n \<and> n < 2 * zoom \<longleftrightarrow> n = 2 * z \<or> n = 2 * z + 1 \<or> (2 * (z + 1) \<le> n \<and> n < 2 * zoom)"
        using True by auto
      then show ?thesis by auto
    qed
    finally show ?thesis .
  qed
qed

lemma bit_xy_to_quadkey:
  "bit (xy_to_quadkey x y zoom) n \<longleftrightarrow>
     n < 2 * unat zoom \<and> (if even n then bit x (n div 2) else bit y (n div 2))"
  by (simp add: xy_to_quadkey_def bit_xy_to_quadkey_loop)

lemma bit_even_bits: "bit (even_bits q k) n \<longleftrightarrow> n < k \<and> n < 32 \<and> bit q (2 * n)"
  by (auto simp add: even_bits_def bit_horner_sum_bit_word_iff)

lemma bit_odd_bits: "bit (odd_bits q k) n \<longleftrightarrow> n < k \<and> n < 32 \<and> bit q (2 * n + 1)"
  by (auto simp add: odd_bits_def bit_horner_sum_bit_word_iff)

lemma even_bits_Suc:
  "ucast (drop_bit k (q AND push_bit (2 * k) 1)) + even_bits q k = even_bits q (Suc k)"
proof -
  note add.commute [of _ "even_bits q k"]
  also have "even_bits q k + ucast (drop_bit k (q AND push_bit (2 * k) 1))
      = even_bits q k OR ucast (drop_bit k (q AND push_bit (2 * k) 1))"
    by (rule disjunctive_add) (simp only: bit_even_bits bit_pick, auto)
  also have "\<dots> = even_bits q (Suc k)"
    by (rule bit_eqI) (simp only: bit_or_iff bit_even_bits bit_pick, auto simp add: less_Suc_eq)
  finally show ?thesis .
qed

lemma odd_bits_Suc:
  "ucast (drop_bit (k + 1) (q AND push_bit (2 * (k + 1) - 1) 1)) + odd_bits q k = odd_bits q (Suc k)"
proof -
  note add.commute [of _ "odd_bits q k"]
  also have "odd_bits q k + ucast (drop_bit (k + 1) (q AND push_bit (2 * (k + 1) - 1) 1))
      = odd_bits q k OR ucast (drop_bit (k + 1) (q AND push_bit (2 * (k + 1) - 1) 1))"
    by (rule disjunctive_add) (simp only: bit_odd_bits bit_pick, auto)
  also have "\<dots> = odd_bits q (Suc k)"
    by (rule bit_eqI) (simp only: bit_or_iff bit_odd_bits bit_pick, auto simp add: less_Suc_eq)
  finally show ?thesis .
qed

lemma quadkey_to_xy_loop_eq:
  "quadkey_to_xy_loop q k r = \<lparr>xy_x = xy_x r + even_bits q k, xy_y = xy_y r + odd_bits q k\<rparr>"
proof (induction k arbitrary: r)
  case 0
  show ?case by (simp add: even_bits_def odd_bits_def)
next
  case (Suc k)
  show ?case
    apply (cases r)
    apply (subst quadkey_to_xy_loop.simps)
    apply (subst Suc.IH)
    apply (simp only: xy_coord_t.simps add.assoc even_bits_Suc odd_bits_Suc)
    done
qed

lemma quadkey_to_xy_eq:
  "quadkey_to_xy q zoom = \<lparr>xy_x = even_bits q (unat zoom), xy_y = odd_bits q (unat zoom)\<rparr>"
  by (simp add: quadkey_to_xy_def quadkey_to_xy_loop_eq)

lemma bit_below:
  assumes "unat (w::'a::len word) < 2 ^ k" and "bit w n"
  shows "n < k"
proof (rule ccontr)
  assume "\<not> n < k"
  then have "(2::nat) ^ k \<le> 2 ^ n" by simp
  with assms(1) have "unat w < 2 ^ n" by linarith
  then have zero: "unat w div 2 ^ n = 0" by simp
  from assms(2) have "bit (unat w) n"
    by (simp add: bit_unsigned_iff)
  then have "odd (unat w div 2 ^ n)"
    by (simp only: bit_iff_odd not_False_eq_True)
  with zero show False by simp
qed

text \<open>
  C1. Round trip: for every zoom \<open>z\<close> from 0 to 31 and all \<open>x\<close>, \<open>y\<close> below \<open>2^z\<close>,
  decoding the quadkey of \<open>(x, y)\<close> at zoom \<open>z\<close> gives back exactly \<open>(x, y)\<close>.
\<close>

theorem quadkey_round_trip:
  assumes "zoom \<le> 31" and "unat x < 2 ^ unat zoom" and "unat y < 2 ^ unat zoom"
  shows "quadkey_to_xy (xy_to_quadkey x y zoom) zoom = \<lparr>xy_x = x, xy_y = y\<rparr>"
proof -
  have "even_bits (xy_to_quadkey x y zoom) (unat zoom) = x"
    by (rule bit_eqI)
      (auto simp add: bit_even_bits bit_xy_to_quadkey dest: bit_below [OF assms(2)] bit_imp_le_length)
  moreover have "odd_bits (xy_to_quadkey x y zoom) (unat zoom) = y"
    by (rule bit_eqI)
      (auto simp add: bit_odd_bits bit_xy_to_quadkey dest: bit_below [OF assms(3)] bit_imp_le_length)
  ultimately show ?thesis by (simp add: quadkey_to_xy_eq)
qed

theorem quadkey_round_trip_witness:
  "(5::uint32) \<le> 31 \<and> unat (19::uint32) < 2 ^ unat (5::uint32)
   \<and> unat (7::uint32) < 2 ^ unat (5::uint32)
   \<and> quadkey_to_xy (xy_to_quadkey 19 7 5) 5 = \<lparr>xy_x = 19, xy_y = 7\<rparr>"
  using quadkey_round_trip [of 5 19 7] by simp

text \<open>
  C5. Ancestor by shift: for every zoom \<open>z\<close> from 0 to 31, all \<open>x\<close>, \<open>y\<close> below \<open>2^z\<close>
  and every \<open>d\<close> from 0 to \<open>z\<close>, the quadkey shifted right by \<open>2 * d\<close> is the quadkey
  of the tile \<open>(x >> d, y >> d)\<close> at zoom \<open>z - d\<close>.
\<close>

theorem quadkey_ancestor_by_shift:
  assumes "zoom \<le> 31" and "unat x < 2 ^ unat zoom" and "unat y < 2 ^ unat zoom" and "d \<le> zoom"
  shows "drop_bit (2 * unat d) (xy_to_quadkey x y zoom)
       = xy_to_quadkey (drop_bit (unat d) x) (drop_bit (unat d) y) (zoom - d)"
proof (rule bit_eqI)
  fix n
  from assms(4) have sub: "unat (zoom - d) = unat zoom - unat d" and le: "unat d \<le> unat zoom"
    by (simp_all add: unat_sub word_le_nat_alt)
  have ev: "even (2 * unat d + n) \<longleftrightarrow> even n" by simp
  have dv: "(2 * unat d + n) div 2 = unat d + n div 2" by simp
  have lt: "2 * unat d + n < 2 * unat zoom \<longleftrightarrow> n < 2 * (unat zoom - unat d)"
    using le by auto
  show "bit (drop_bit (2 * unat d) (xy_to_quadkey x y zoom)) n
      = bit (xy_to_quadkey (drop_bit (unat d) x) (drop_bit (unat d) y) (zoom - d)) n"
    by (simp only: bit_drop_bit_eq o_apply bit_xy_to_quadkey sub ev dv lt)
qed

theorem quadkey_ancestor_by_shift_witness:
  "(5::uint32) \<le> 31 \<and> unat (19::uint32) < 2 ^ unat (5::uint32)
   \<and> unat (7::uint32) < 2 ^ unat (5::uint32) \<and> (2::uint32) \<le> 5
   \<and> drop_bit (2 * unat (2::uint32)) (xy_to_quadkey 19 7 5)
       = xy_to_quadkey (drop_bit (unat (2::uint32)) 19) (drop_bit (unat (2::uint32)) 7) (5 - 2)"
  using quadkey_ancestor_by_shift [of 5 19 7 2] by simp

text \<open>
  C6. The boundary vectors that fix the YXYX bit layout and the 64-bit arithmetic (they
  are also the expected values of the tests \<^verbatim>\<open>test_xy_to_quadkey_z3\<close>,
  \<^verbatim>\<open>_z16\<close> and \<^verbatim>\<open>_z18\<close>).
\<close>

theorem quadkey_boundary_vectors:
  "xy_to_quadkey 3 5 3 = 0x27
   \<and> xy_to_quadkey 65535 65535 16 = 0xFFFFFFFF
   \<and> xy_to_quadkey 262143 262143 18 = 0xFFFFFFFFF
   \<and> xy_to_quadkey 131068 131068 18 = 0x3FFFFFFF0"
  by code_simp

section \<open>The range of the stored quadkeys\<close>

lemma word_less_power_bitsI:
  assumes "k < LENGTH('a)" and "\<And>n. bit w n \<Longrightarrow> n < k"
  shows "(w::'a::len word) < 2 ^ k"
proof -
  have "w AND mask k = w"
    by (rule bit_eqI) (auto simp add: bit_and_iff bit_mask_iff dest: assms(2))
  with assms(1) show ?thesis
    by (simp add: mask_eq_iff_w2p word_size)
qed

lemma word_less_power_bitsD:
  assumes "(w::'a::len word) < 2 ^ k" and "bit w n"
  shows "n < k"
proof -
  from assms(1) have "w AND mask k = w" by (rule less_mask_eq)
  with assms(2) have "bit (w AND mask k) n" by simp
  then show ?thesis by (simp add: bit_and_iff bit_mask_iff)
qed

lemma xy_to_quadkey_less:
  assumes "zoom \<le> 31"
  shows "xy_to_quadkey x y zoom < push_bit (2 * unat zoom) 1"
proof -
  from assms have "unat zoom \<le> 31" by (simp add: word_le_nat_alt)
  then have "2 * unat zoom < LENGTH(64)" by simp
  then have "xy_to_quadkey x y zoom < 2 ^ (2 * unat zoom)"
    by (rule word_less_power_bitsI) (simp add: bit_xy_to_quadkey)
  then show ?thesis by simp
qed

lemma maxzoom_expire_tile [simp]: "maxzoom (expire_tile x y s) = maxzoom s"
  by (simp add: expire_tile_def)

lemma map_width_expire_tile [simp]: "map_width (expire_tile x y s) = map_width s"
  by (simp add: expire_tile_def)

lemma configured_expire_tile [simp]: "configured (expire_tile x y s) = configured s"
  by (simp add: configured_def)

lemma in_range_expire_tile:
  assumes "maxzoom s \<le> 31" and "quadkeys_in_range s"
  shows "quadkeys_in_range (expire_tile x y s)"
  using assms xy_to_quadkey_less [of "maxzoom s" x y]
  by (auto simp add: quadkeys_in_range_def expire_tile_def list_all_iff)

lemma in_range_expire_tile_calls:
  assumes "maxzoom s \<le> 31" and "quadkeys_in_range s"
  shows "quadkeys_in_range (expire_tile_calls calls s) \<and> maxzoom (expire_tile_calls calls s) = maxzoom s"
  using assms unfolding expire_tile_calls_def
proof (induction calls arbitrary: s)
  case Nil
  then show ?case by simp
next
  case (Cons c calls)
  obtain x y where c: "c = (x, y)" by (cases c)
  from Cons.prems have "maxzoom (expire_tile x y s) \<le> 31" "quadkeys_in_range (expire_tile x y s)"
    by (simp_all add: in_range_expire_tile)
  from Cons.IH [OF this] show ?case by (simp add: c)
qed

lemma bbox_loop_y_inv:
  assumes "bbox_loop_y ix iy my s = Some s'"
  shows "maxzoom s \<le> 31 \<and> quadkeys_in_range s \<longrightarrow> maxzoom s' = maxzoom s \<and> quadkeys_in_range s'"
proof (rule bbox_loop_y.raw_induct
    [where P = "\<lambda>ix iy my s s'. maxzoom s \<le> 31 \<and> quadkeys_in_range s
                  \<longrightarrow> maxzoom s' = maxzoom s \<and> quadkeys_in_range s'", OF _ assms])
  fix f ix iy my s s'
  assume IH: "\<And>ix iy my s s'. f ix iy my s = Some s' \<Longrightarrow>
      maxzoom s \<le> 31 \<and> quadkeys_in_range s \<longrightarrow> maxzoom s' = maxzoom s \<and> quadkeys_in_range s'"
    and step: "(if iy \<le> my then f ix (iy + 1) my (expire_tile ix iy s) else Some s) = Some s'"
  show "maxzoom s \<le> 31 \<and> quadkeys_in_range s \<longrightarrow> maxzoom s' = maxzoom s \<and> quadkeys_in_range s'"
  proof (cases "iy \<le> my")
    case True
    with step have "f ix (iy + 1) my (expire_tile ix iy s) = Some s'" by simp
    from IH [OF this] show ?thesis by (auto simp add: in_range_expire_tile)
  next
    case False
    with step show ?thesis by simp
  qed
qed

lemma bbox_loop_x_inv:
  assumes "bbox_loop_x ix mny mxx mxy s = Some s'"
  shows "maxzoom s \<le> 31 \<and> quadkeys_in_range s \<longrightarrow> maxzoom s' = maxzoom s \<and> quadkeys_in_range s'"
proof (rule bbox_loop_x.raw_induct
    [where P = "\<lambda>ix mny mxx mxy s s'. maxzoom s \<le> 31 \<and> quadkeys_in_range s
                  \<longrightarrow> maxzoom s' = maxzoom s \<and> quadkeys_in_range s'", OF _ assms])
  fix f ix mny mxx mxy s s'
  assume IH: "\<And>ix mny mxx mxy s s'. f ix mny mxx mxy s = Some s' \<Longrightarrow>
      maxzoom s \<le> 31 \<and> quadkeys_in_range s \<longrightarrow> maxzoom s' = maxzoom s \<and> quadkeys_in_range s'"
    and step: "(if ix \<le> mxx
                then Option.bind (bbox_loop_y ix mny mxy s) (f (ix + 1) mny mxx mxy)
                else Some s) = Some s'"
  show "maxzoom s \<le> 31 \<and> quadkeys_in_range s \<longrightarrow> maxzoom s' = maxzoom s \<and> quadkeys_in_range s'"
  proof (cases "ix \<le> mxx")
    case True
    with step obtain s1 where s1: "bbox_loop_y ix mny mxy s = Some s1"
      and rest: "f (ix + 1) mny mxx mxy s1 = Some s'"
      by (auto simp add: bind_eq_Some_conv)
    from bbox_loop_y_inv [OF s1] IH [OF rest] show ?thesis by auto
  next
    case False
    with step show ?thesis by simp
  qed
qed

lemma set_fold_insert: "set (fold List.insert xs ys) = set xs \<union> set ys"
  by (induction xs arbitrary: ys) auto

lemma distinct_fold_insert: "distinct ys \<Longrightarrow> distinct (fold List.insert xs ys)"
  by (induction xs arbitrary: ys) auto

lemma configured_maxzoom_eq:
  assumes "configured a" and "configured b" and "map_width a = map_width b"
  shows "maxzoom a = maxzoom b"
proof -
  let ?m = "unat (maxzoom a)" and ?n = "unat (maxzoom b)"
  from assms have m: "?m \<le> 31" and n: "?n \<le> 31"
    and eq: "(2::uint32) ^ ?m = 2 ^ ?n"
    by (simp_all add: configured_def word_le_nat_alt)
  have "bit ((2::uint32) ^ ?m) ?m" using m by (simp add: bit_exp_iff)
  with eq have "bit ((2::uint32) ^ ?n) ?m" by simp
  then have "?m = ?n" by (simp add: bit_exp_iff)
  then show ?thesis by (rule unsigned_word_eqI)
qed

text \<open>
  C9. Range invariant: every stored quadkey is strictly below
  \<^verbatim>\<open>1ULL << (2 * maxzoom)\<close>, the first \<^verbatim>\<open>last_quadkey\<close> of
  \<^verbatim>\<open>output_and_destroy\<close>. It holds for the object the constructor builds for
  \<open>0 < maxzoom \<le> 31\<close>; \<^verbatim>\<open>expire_tile\<close> keeps it for all arguments, since
  \<^verbatim>\<open>xy_to_quadkey\<close> reads only the low \<open>maxzoom\<close> bits of each index; so does any
  sequence of calls of \<^verbatim>\<open>expire_tile\<close> (what the \<^verbatim>\<open>from_*\<close> operations
  do to the set), \<^verbatim>\<open>from_bbox_without_buffer\<close> and \<^verbatim>\<open>from_bbox\<close> when they
  return; and \<^verbatim>\<open>merge_and_destroy\<close> keeps it for both objects, whether it throws
  or not.
\<close>

theorem quadkey_range_invariant:
  "(0 < mz \<and> mz \<le> 31 \<longrightarrow>
      configured (expire_tiles_ctor mz bbox uninit) \<and> quadkeys_in_range (expire_tiles_ctor mz bbox uninit))
   \<and> (maxzoom s \<le> 31 \<and> quadkeys_in_range s \<longrightarrow>
        quadkeys_in_range (expire_tile x y s)
        \<and> quadkeys_in_range (expire_tile_calls calls s)
        \<and> (\<forall>s'. from_bbox_without_buffer min_x min_y max_x max_y s = Some s' \<longrightarrow> quadkeys_in_range s')
        \<and> (\<forall>s'. from_bbox bx1 by1 bx2 by2 s = Some s' \<longrightarrow> quadkeys_in_range s'))
   \<and> (configured s \<and> configured other \<and> quadkeys_in_range s \<and> quadkeys_in_range other \<longrightarrow>
        (case merge_and_destroy s other of (r, s', other') \<Rightarrow>
           configured s' \<and> configured other' \<and> quadkeys_in_range s' \<and> quadkeys_in_range other'))"
proof (intro conjI impI allI)
  assume "0 < mz \<and> mz \<le> 31"
  then show "configured (expire_tiles_ctor mz bbox uninit)"
    by (simp add: configured_def expire_tiles_ctor_def Let_def)
  show "quadkeys_in_range (expire_tiles_ctor mz bbox uninit)"
    by (simp add: quadkeys_in_range_def expire_tiles_ctor_def Let_def)
next
  assume "maxzoom s \<le> 31 \<and> quadkeys_in_range s"
  then show "quadkeys_in_range (expire_tile x y s)"
    by (simp add: in_range_expire_tile)
next
  assume "maxzoom s \<le> 31 \<and> quadkeys_in_range s"
  then show "quadkeys_in_range (expire_tile_calls calls s)"
    by (simp add: in_range_expire_tile_calls)
next
  fix s'
  assume "maxzoom s \<le> 31 \<and> quadkeys_in_range s"
    and "from_bbox_without_buffer min_x min_y max_x max_y s = Some s'"
  then show "quadkeys_in_range s'"
    using bbox_loop_x_inv [of min_x min_y max_x max_y s s']
    by (simp add: from_bbox_without_buffer_def)
next
  fix s'
  assume "maxzoom s \<le> 31 \<and> quadkeys_in_range s"
    and "from_bbox bx1 by1 bx2 by2 s = Some s'"
  then show "quadkeys_in_range s'"
    using bbox_loop_x_inv [of _ _ _ _ s s']
    by (simp add: from_bbox_def from_bbox_without_buffer_def)
next
  assume a: "configured s \<and> configured other \<and> quadkeys_in_range s \<and> quadkeys_in_range other"
  show "case merge_and_destroy s other of (r, s', other') \<Rightarrow>
           configured s' \<and> configured other' \<and> quadkeys_in_range s' \<and> quadkeys_in_range other'"
  proof (cases "map_width s = map_width other")
    case True
    with a have "maxzoom s = maxzoom other" by (simp add: configured_maxzoom_eq)
    with a True show ?thesis
      by (auto simp add: merge_and_destroy_def configured_def quadkeys_in_range_def
          list_all_iff set_fold_insert)
  next
    case False
    with a show ?thesis by (simp add: merge_and_destroy_def)
  qed
qed

section \<open>Merging\<close>

text \<open>
  C3. \<^verbatim>\<open>merge_and_destroy\<close> raises an error if and only if the two objects differ in
  \<^verbatim>\<open>map_width\<close> or in \<^verbatim>\<open>tile_width\<close>; then both objects are unchanged. When it
  succeeds, the set of the first object is the union of the two sets and the set of the
  other object is empty.
\<close>

theorem merge_and_destroy_spec:
  "(case merge_and_destroy self other of (r, self', other') \<Rightarrow>
      (isl r \<longleftrightarrow> map_width self \<noteq> map_width other \<or> tile_width self \<noteq> tile_width other)
      \<and> (isl r \<longrightarrow> self' = self \<and> other' = other)
      \<and> (\<not> isl r \<longrightarrow>
            set (m_dirty_tiles self') = set (m_dirty_tiles self) \<union> set (m_dirty_tiles other)
            \<and> m_dirty_tiles other' = []))"
  by (auto simp add: merge_and_destroy_def set_fold_insert)

section \<open>The output depends on the set only\<close>

text \<open>
  C10. Determinism: two objects with the same \<^verbatim>\<open>maxzoom\<close> whose sets hold the same
  quadkeys, in whatever order the containers iterate over them and whatever the other
  members are, give the same sequence of \<open>(x, y, zoom)\<close> for the same \<open>minzoom\<close>.
\<close>

theorem output_deterministic:
  assumes "maxzoom a = maxzoom b"
    and "distinct (m_dirty_tiles a)" and "distinct (m_dirty_tiles b)"
    and "set (m_dirty_tiles a) = set (m_dirty_tiles b)"
  shows "output_and_destroy a minzoom = output_and_destroy b minzoom"
proof -
  have "sort (m_dirty_tiles a) = sort (m_dirty_tiles b)"
    using assms(2-4) by (intro sorted_distinct_set_unique) simp_all
  with assms(1) show ?thesis by (simp add: output_and_destroy_def)
qed


lemma zoom2_state_simps:
  "maxzoom (zoom2_state qs) = 2" "map_width (zoom2_state qs) = 4" "m_dirty_tiles (zoom2_state qs) = qs"
  "last_tile_x (zoom2_state qs) = 5" "last_tile_y (zoom2_state qs) = 5"
  by (simp_all add: zoom2_state_def expire_tiles_ctor_def uninit0_def Let_def)

theorem merge_and_destroy_spec_witness:
  "fst (merge_and_destroy (zoom2_state [3, 1]) (zoom2_state [1, 12])) = Inr ()
   \<and> set (m_dirty_tiles (fst (snd (merge_and_destroy (zoom2_state [3, 1]) (zoom2_state [1, 12])))))
       = {1, 3, 12}
   \<and> m_dirty_tiles (snd (snd (merge_and_destroy (zoom2_state [3, 1]) (zoom2_state [1, 12])))) = []
   \<and> fst (merge_and_destroy (zoom2_state [3, 1]) ((zoom2_state [1, 12])\<lparr>map_width := 8\<rparr>))
       = Inl MapWidthMismatch
   \<and> snd (merge_and_destroy (zoom2_state [3, 1]) ((zoom2_state [1, 12])\<lparr>map_width := 8\<rparr>))
       = (zoom2_state [3, 1], (zoom2_state [1, 12])\<lparr>map_width := 8\<rparr>)"
proof -
  let ?a = "zoom2_state [3, 1]" and ?b = "zoom2_state [1, 12]"
  let ?c = "(zoom2_state [1, 12])\<lparr>map_width := 8\<rparr>"
  have ab: "map_width ?a = map_width ?b \<and> tile_width ?a = tile_width ?b"
    by (simp add: zoom2_state_def)
  have ac: "map_width ?a \<noteq> map_width ?c"
    by (simp add: zoom2_state_simps)
  obtain r s' o' where m: "merge_and_destroy ?a ?b = (r, s', o')"
    by (cases "merge_and_destroy ?a ?b")
  from merge_and_destroy_spec [of ?a ?b] ab
  have 1: "\<not> isl r \<and> set (m_dirty_tiles s') = {1, 3, 12} \<and> m_dirty_tiles o' = []"
    by (auto simp add: m zoom2_state_simps)
  then have "r = Inr ()" by (cases r) simp_all
  with 1 have ok: "fst (merge_and_destroy ?a ?b) = Inr ()
      \<and> set (m_dirty_tiles (fst (snd (merge_and_destroy ?a ?b)))) = {1, 3, 12}
      \<and> m_dirty_tiles (snd (snd (merge_and_destroy ?a ?b))) = []"
    by (simp add: m)
  obtain r2 s2 o2 where m2: "merge_and_destroy ?a ?c = (r2, s2, o2)"
    by (cases "merge_and_destroy ?a ?c")
  from merge_and_destroy_spec [of ?a ?c] ac
  have 2: "isl r2 \<and> s2 = ?a \<and> o2 = ?c"
    by (simp add: m2)
  have "fst (merge_and_destroy ?a ?c) = Inl MapWidthMismatch"
    using ac by (simp add: merge_and_destroy_def)
  with 2 ok show ?thesis by (simp add: m2)
qed

theorem output_deterministic_witness:
  "maxzoom (zoom2_state [3, 1, 14, 12]) = maxzoom (zoom2_state [12, 14, 1, 3])
   \<and> distinct (m_dirty_tiles (zoom2_state [3, 1, 14, 12]))
   \<and> distinct (m_dirty_tiles (zoom2_state [12, 14, 1, 3]))
   \<and> set (m_dirty_tiles (zoom2_state [3, 1, 14, 12])) = set (m_dirty_tiles (zoom2_state [12, 14, 1, 3]))
   \<and> output_and_destroy (zoom2_state [3, 1, 14, 12]) 0 = output_and_destroy (zoom2_state [12, 14, 1, 3]) 0"
proof -
  have h1: "maxzoom (zoom2_state [3, 1, 14, 12]) = maxzoom (zoom2_state [12, 14, 1, 3])"
    by (simp add: zoom2_state_simps)
  have h2: "distinct (m_dirty_tiles (zoom2_state [3, 1, 14, 12]))"
    and h3: "distinct (m_dirty_tiles (zoom2_state [12, 14, 1, 3]))"
    by (simp_all add: zoom2_state_simps)
  have h4: "set (m_dirty_tiles (zoom2_state [3, 1, 14, 12])) = set (m_dirty_tiles (zoom2_state [12, 14, 1, 3]))"
    by (auto simp add: zoom2_state_simps)
  from output_deterministic [OF h1 h2 h3 h4, of 0] h1 h2 h3 h4 show ?thesis by blast
qed

section \<open>Expiring one tile\<close>

lemma expire_tile_dropped:
  "map_width s < x \<or> map_width s < y \<Longrightarrow> expire_tile x y s = s"
  by (auto simp add: expire_tile_def valid_tile_coord_def)

lemma expire_tile_inserted:
  assumes "x \<le> map_width s" and "y \<le> map_width s" and "(x, y) \<noteq> (last_tile_x s, last_tile_y s)"
  shows "set (m_dirty_tiles (expire_tile x y s)) = insert (xy_to_quadkey x y (maxzoom s)) (set (m_dirty_tiles s))"
    and "last_tile_x (expire_tile x y s) = x" and "last_tile_y (expire_tile x y s) = y"
  using assms by (auto simp add: expire_tile_def valid_tile_coord_def)

text \<open>
  C4. The claim: a call \<^verbatim>\<open>expire_tile(x, y)\<close> with \<open>x \<ge> map_width\<close> or
  \<open>y \<ge> map_width\<close> leaves the set unchanged. \<^verbatim>\<open>valid_tile_coord\<close> tests
  \<^verbatim>\<open>coord <= map_width\<close>, so an index equal to \<^verbatim>\<open>map_width\<close> passes, and
  \<^verbatim>\<open>xy_to_quadkey\<close> drops its only set bit: at \<open>maxzoom = 2\<close> the call
  \<^verbatim>\<open>expire_tile(4, 1)\<close> inserts the quadkey of the tile \<open>(0, 1)\<close>, and
  \<^verbatim>\<open>expire_tile(1, 4)\<close> that of \<open>(1, 0)\<close>.
\<close>

theorem expire_tile_at_map_width:
  "map_width (zoom2_state []) = 4
   \<and> m_dirty_tiles (expire_tile 4 1 (zoom2_state [])) = [xy_to_quadkey 0 1 2]
   \<and> m_dirty_tiles (expire_tile 1 4 (zoom2_state [])) = [xy_to_quadkey 1 0 2]
   \<and> m_dirty_tiles (expire_tile 4 1 (zoom2_state [])) \<noteq> m_dirty_tiles (zoom2_state [])
   \<and> map_option m_dirty_tiles (from_bbox_without_buffer 4 1 4 1 (zoom2_state []))
       = Some [xy_to_quadkey 0 1 2]"
  by code_simp

theorem quadkey_range_invariant_witness:
  "configured (expire_tiles_ctor 2 20037508.34 uninit0)
   \<and> quadkeys_in_range (expire_tiles_ctor 2 20037508.34 uninit0)
   \<and> quadkeys_in_range (expire_tile 4 7 (zoom2_state [3, 1]))
   \<and> quadkeys_in_range (expire_tile_calls [(1, 2), (4, 4), (9, 0)] (zoom2_state [3, 1]))
   \<and> from_bbox_without_buffer 0 0 1 1 (zoom2_state [3, 1]) \<noteq> None
   \<and> quadkeys_in_range (the (from_bbox_without_buffer 0 0 1 1 (zoom2_state [3, 1])))
   \<and> from_bbox 0.5 0.5 1.5 1.5 (zoom2_state [3, 1]) \<noteq> None
   \<and> quadkeys_in_range (the (from_bbox 0.5 0.5 1.5 1.5 (zoom2_state [3, 1])))
   \<and> quadkeys_in_range (fst (snd (merge_and_destroy (zoom2_state [3, 1]) (zoom2_state [1, 12]))))
   \<and> quadkeys_in_range (snd (snd (merge_and_destroy (zoom2_state [3, 1]) (zoom2_state [1, 12]))))"
proof -
  have c: "configured (zoom2_state qs)" for qs
    by (simp add: configured_def zoom2_state_simps)
  have r1: "quadkeys_in_range (zoom2_state [3, 1])" and r2: "quadkeys_in_range (zoom2_state [1, 12])"
    by (simp_all add: quadkeys_in_range_def zoom2_state_simps)
  have m: "maxzoom (zoom2_state [3, 1]) \<le> 31" "(0::uint32) < 2 \<and> (2::uint32) \<le> 31"
    by (simp_all add: zoom2_state_simps)
  have b1: "from_bbox_without_buffer 0 0 1 1 (zoom2_state [3, 1]) \<noteq> None"
    by code_simp
  have b2: "from_bbox 0.5 0.5 1.5 1.5 (zoom2_state [3, 1]) \<noteq> None"
    by code_simp
  from quadkey_range_invariant [of 2 "20037508.34" uninit0 "zoom2_state [3, 1]" 4 7
      "[(1, 2), (4, 4), (9, 0)]" 0 0 1 1 "0.5" "0.5" "1.5" "1.5" "zoom2_state [1, 12]"]
    c r1 r2 m b1 b2
  show ?thesis by (auto split: prod.splits)
qed

theorem expire_tile_at_map_width_witness:
  "valid_tile_coord (zoom2_state []) 4
   \<and> m_dirty_tiles (expire_tile 4 1 (zoom2_state [])) = [2]
   \<and> m_dirty_tiles (expire_tile 1 4 (zoom2_state [])) = [1]"
proof -
  have "valid_tile_coord (zoom2_state []) 4"
    by (simp add: valid_tile_coord_def zoom2_state_simps)
  moreover have "xy_to_quadkey 0 1 2 = 2" and "xy_to_quadkey 1 0 2 = 1"
    by code_simp+
  ultimately show ?thesis
    using expire_tile_at_map_width by simp
qed

section \<open>Segments inside one column\<close>


lemma truncate_double_mono: "a \<le> b \<Longrightarrow> truncate_double a \<le> truncate_double b"
proof -
  assume ab: "a \<le> b"
  consider "0 \<le> a" | "a < 0" "0 \<le> b" | "b < 0" using ab by linarith
  then show ?thesis
  proof cases
    case 1
    with ab show ?thesis by (simp add: truncate_double_def floor_mono)
  next
    case 2
    then have "\<lceil>a\<rceil> \<le> 0" and "0 \<le> \<lfloor>b\<rfloor>" by (simp_all add: ceiling_le_iff)
    then have "\<lceil>a\<rceil> \<le> \<lfloor>b\<rfloor>" by linarith
    with 2 show ?thesis by (simp add: truncate_double_def)
  next
    case 3
    with ab show ?thesis by (simp add: truncate_double_def ceiling_mono)
  qed
qed

lemma truncate_double_nonneg: "- 1 < d \<Longrightarrow> 0 \<le> truncate_double d"
  by (auto simp add: truncate_double_def le_ceiling_iff)

lemma truncate_double_less: "d < 2 ^ 32 \<Longrightarrow> truncate_double d < 2 ^ 32"
  by (auto simp add: truncate_double_def floor_less_iff ceiling_less_iff)

lemma to_uint32_eqD:
  assumes "to_uint32 a = to_uint32 b"
    and "- 1 < a" and "a < 2 ^ 32" and "- 1 < b" and "b < 2 ^ 32"
  shows "truncate_double a = truncate_double b"
proof -
  have ra: "0 \<le> truncate_double a" "truncate_double a < 2 ^ 32"
    and rb: "0 \<le> truncate_double b" "truncate_double b < 2 ^ 32"
    using assms(2-5) truncate_double_less [of a] truncate_double_less [of b]
    by (simp_all add: truncate_double_nonneg)
  from assms(1) have "uint (word_of_int (truncate_double a) :: uint32)
      = uint (word_of_int (truncate_double b) :: uint32)"
    by (simp add: to_uint32_def)
  with ra rb show ?thesis
    by (simp add: uint_word_of_int take_bit_int_eq_self)
qed

lemma short_edge_column:
  assumes lw: "0 \<le> lw"
    and dx: "is_double x1" "is_double x2"
    and lo: "- 1 < dsub (min x1 x2) lw"
    and hi: "dadd (max x1 x2) lw < 2 ^ 32"
    and short: "to_uint32 (dsub (min x1 x2) lw) = to_uint32 (dadd (max x1 x2) lw)"
  shows "to_uint32 x1 = to_uint32 (dsub (min x1 x2) lw)"
proof -
  from dx have "is_double (min x1 x2)" "is_double (max x1 x2)"
    by (simp_all add: is_double_min_max)
  with lw have "dsub (min x1 x2) lw \<le> min x1 x2" "max x1 x2 \<le> dadd (max x1 x2) lw"
    by (blast intro: dsub_le dadd_ge)+
  then have le: "dsub (min x1 x2) lw \<le> x1" "x1 \<le> dadd (max x1 x2) lw"
    "dsub (min x1 x2) lw \<le> dadd (max x1 x2) lw"
    by auto
  from short have "truncate_double (dsub (min x1 x2) lw) = truncate_double (dadd (max x1 x2) lw)"
    using lo hi le by (intro to_uint32_eqD) auto
  with truncate_double_mono [OF le(1)] truncate_double_mono [OF le(2)]
  have "truncate_double x1 = truncate_double (dsub (min x1 x2) lw)" by simp
  then show ?thesis by (simp add: to_uint32_def)
qed

text \<open>
  C8, as the code has it, in double arithmetic. Take a segment of doubles whose two
  converted bounds \<^verbatim>\<open>static_cast<uint32_t>(min(x1, x2) - leeway)\<close> and
  \<^verbatim>\<open>static_cast<uint32_t>(max(x1, x2) + leeway)\<close> are equal, with \<open>leeway \<ge> 0\<close>, the four
  rounded values \<open>min(x1, x2) - leeway\<close>, \<open>max(x1, x2) + leeway\<close>, \<open>min(y1, y2) - leeway\<close>
  and \<open>max(y1, y2) + leeway\<close> above \<open>-1\<close> and below \<open>2^32\<close> (where the conversion is
  defined), and the column allocated. Then \<^verbatim>\<open>evaluate_segment\<close> returns normally,
  having appended exactly one minimum, the conversion of \<open>min(y1, y2) - leeway\<close>, and
  exactly one maximum, the conversion of \<open>max(y1, y2) + leeway\<close>, both to the column of
  \<^verbatim>\<open>static_cast<uint32_t>(min(x1, x2) - leeway)\<close>; no other column and no other member
  changes. The conversion drops the fractional part: it is the floor of a value that is
  not negative, and 0 on \<open>(-1, 0)\<close>.
\<close>

theorem short_edge_contribution:
  assumes "0 \<le> leeway t" and "is_double x1" and "is_double x2"
    and "- 1 < dsub (min x1 x2) (leeway t)"
    and "dadd (max x1 x2) (leeway t) < 2 ^ 32"
    and "to_uint32 (dsub (min x1 x2) (leeway t)) = to_uint32 (dadd (max x1 x2) (leeway t))"
    and "- 1 < dsub (min y1 y2) (leeway t)"
    and "dadd (max y1 y2) (leeway t) < 2 ^ 32"
    and "unat (to_uint32 (dsub (min x1 x2) (leeway t)) - offset_x t) < length (min_bounds t)"
    and "unat (to_uint32 (dsub (min x1 x2) (leeway t)) - offset_x t) < length (max_bounds t)"
  shows "evaluate_segment interior_side_above x1 y1 x2 y2 outer_ring t =
    Some (Inr (let c = unat (to_uint32 (dsub (min x1 x2) (leeway t)) - offset_x t) in
      t\<lparr>min_bounds :=
          (min_bounds t)[c := min_bounds t ! c @ [to_uint32 (dsub (min y1 y2) (leeway t))]],
        max_bounds :=
          (max_bounds t)[c := max_bounds t ! c @ [to_uint32 (dadd (max y1 y2) (leeway t))]]\<rparr>))"
proof -
  have col: "to_uint32 x1 = to_uint32 (dsub (min x1 x2) (leeway t))"
    using assms(1-6) by (rule short_edge_column)
  show ?thesis
    using assms(6,9,10)
    by (simp add: evaluate_segment_def add_minimum_def add_maximum_def get_x_index_def col Let_def)
qed

lemma ctor_example:
  "intersecting_tiles_ctor (1/2) (7/2) 8 TILE_EXPIRY_LEEWAY
     = \<lparr>offset_x = 0, max_tile_id = 8, leeway = TILE_EXPIRY_LEEWAY,
        min_bounds = [[], [], [], []], max_bounds = [[], [], [], []],
        current_x = 0, next_idx_min = 0, next_idx_max = 0\<rparr>"
  by code_simp

lemma leeway_values:
  "0 \<le> TILE_EXPIRY_LEEWAY"
  "is_double (1/2)" "is_double (3/2)" "is_double (1/16)"
  by code_simp+

lemma leeway_bounds:
  "- 1 < dsub (3/2) TILE_EXPIRY_LEEWAY" "dadd (3/2) TILE_EXPIRY_LEEWAY < 2 ^ 32"
  "- 1 < dsub (5/2) TILE_EXPIRY_LEEWAY" "dadd (15/4) TILE_EXPIRY_LEEWAY < 2 ^ 32"
  by code_simp+

lemma leeway_columns:
  "to_uint32 (dsub (3/2) TILE_EXPIRY_LEEWAY) = 1" "to_uint32 (dadd (3/2) TILE_EXPIRY_LEEWAY) = 1"
  "to_uint32 (dsub (5/2) TILE_EXPIRY_LEEWAY) = 2" "to_uint32 (dadd (15/4) TILE_EXPIRY_LEEWAY) = 3"
  by code_simp+

theorem short_edge_contribution_witness:
  "evaluate_segment interior_side_above_exact (3/2) (5/2) (3/2) (15/4) True
       (intersecting_tiles_ctor (1/2) (7/2) 8 TILE_EXPIRY_LEEWAY)
     = Some (Inr ((intersecting_tiles_ctor (1/2) (7/2) 8 TILE_EXPIRY_LEEWAY)
          \<lparr>min_bounds := [[], [2], [], []], max_bounds := [[], [3], [], []]\<rparr>))"
  using short_edge_contribution [of "intersecting_tiles_ctor (1/2) (7/2) 8 TILE_EXPIRY_LEEWAY"
      "3/2" "3/2" "5/2" "15/4" interior_side_above_exact True] leeway_bounds
  by (simp add: ctor_example leeway_values leeway_columns)

lemma leeway_floors:
  "\<lfloor>(1/2) - TILE_EXPIRY_LEEWAY\<rfloor> = 0" "\<lfloor>(1/2) + TILE_EXPIRY_LEEWAY\<rfloor> = 0"
  "\<lfloor>dsub (1/2) TILE_EXPIRY_LEEWAY\<rfloor> = 0" "\<lfloor>dadd (1/2) TILE_EXPIRY_LEEWAY\<rfloor> = 0"
  "\<lfloor>(1/16) - TILE_EXPIRY_LEEWAY\<rfloor> = - 1" "\<lfloor>dsub (1/16) TILE_EXPIRY_LEEWAY\<rfloor> = - 1"
  by code_simp+

lemma leeway_top_row:
  "to_uint32 (dsub (1/2) TILE_EXPIRY_LEEWAY) = 0" "to_uint32 (dadd (1/2) TILE_EXPIRY_LEEWAY) = 0"
  "to_uint32 (1/2) = 0"
  "to_uint32 (dsub (1/16) TILE_EXPIRY_LEEWAY) = 0" "to_uint32 (dadd (1/16) TILE_EXPIRY_LEEWAY) = 0"
  by code_simp+

text \<open>
  C8, as the claim states it, with floors. Take the segment from \<open>(0.5, 0.0625)\<close> to
  \<open>(0.5, 0.0625)\<close>, all doubles, and \<open>leeway\<close> the double \<^verbatim>\<open>0.1\<close>. The floors of the two
  x bounds are equal (both 0), whether the sum and the difference are exact or rounded, so
  the claim asks for the minimum entry \<open>\<lfloor>0.0625 - 0.1\<rfloor> = -1\<close>; the code appends 0.
\<close>

theorem short_edge_floor_counterexample:
  "is_double (1/2) \<and> is_double (1/16)
   \<and> \<lfloor>min (1/2) (1/2) - TILE_EXPIRY_LEEWAY\<rfloor> = \<lfloor>max (1/2) (1/2) + TILE_EXPIRY_LEEWAY\<rfloor>
   \<and> \<lfloor>dsub (min (1/2) (1/2)) TILE_EXPIRY_LEEWAY\<rfloor> = \<lfloor>dadd (max (1/2) (1/2)) TILE_EXPIRY_LEEWAY\<rfloor>
   \<and> evaluate_segment interior_side_above_exact (1/2) (1/16) (1/2) (1/16) True
         (intersecting_tiles_ctor (1/2) (7/2) 8 TILE_EXPIRY_LEEWAY)
       = Some (Inr ((intersecting_tiles_ctor (1/2) (7/2) 8 TILE_EXPIRY_LEEWAY)
            \<lparr>min_bounds := [[0], [], [], []], max_bounds := [[0], [], [], []]\<rparr>))
   \<and> \<lfloor>min (1/16) (1/16) - TILE_EXPIRY_LEEWAY\<rfloor> = - 1
   \<and> \<lfloor>dsub (min (1/16) (1/16)) TILE_EXPIRY_LEEWAY\<rfloor> = - 1
   \<and> uint (0 :: uint32) \<noteq> - 1"
  by (simp add: ctor_example leeway_values leeway_floors leeway_top_row evaluate_segment_def
      add_minimum_def add_maximum_def get_x_index_def)

section \<open>Polygons with a large bounding box\<close>


lemma evil_items:
  "polygon_items [[(0, 0), (10, 0), (10, 10), (0, 0)], [(1, 1), (2, 1), (2, 2), (1, 1)]]
     = [WkbLength 2, WkbLength 4, WkbPoint 0 0, WkbPoint 10 0, WkbPoint 10 10, WkbPoint 0 0,
        WkbLength 4, WkbPoint 1 1, WkbPoint 2 1, WkbPoint 2 2, WkbPoint 1 1]"
  by (simp add: polygon_items_def ring_items_def)

text \<open>
  C7. The claim: a polygon whose bounding box exceeds \<^verbatim>\<open>max_bbox\<close> has every ring,
  the outer one and all inner ones, expired as a linestring, and no interior filled. For
  the polygon with the outer ring \<open>(0,0) (10,0) (10,10) (0,0)\<close>, the inner ring
  \<open>(1,1) (2,1) (2,2) (1,1)\<close> and \<^verbatim>\<open>max_bbox = 5\<close>, \<^verbatim>\<open>from_wkb_polygon\<close> makes the
  three calls of \<^verbatim>\<open>from_line_lon_lat\<close> of the outer ring and returns, leaving the
  parser at the inner ring, whatever the rest of the function would do: the interior is
  not filled, and the inner ring is not expired.
\<close>

theorem evil_polygon_first_ring_only:
  "from_wkb_polygon log_point log_line fill 5
     \<lparr>wkb_items = polygon_items [[(0, 0), (10, 0), (10, 10), (0, 0)], [(1, 1), (2, 1), (2, 2), (1, 1)]],
      wkb_pos = 0\<rparr> []
   = Inr (\<lparr>wkb_items = polygon_items [[(0, 0), (10, 0), (10, 10), (0, 0)], [(1, 1), (2, 1), (2, 2), (1, 1)]],
           wkb_pos = 6\<rparr>,
          ring_as_line [(0, 0), (10, 0), (10, 10), (0, 0)])
   \<and> ring_as_line [(0, 0), (10, 0), (10, 10), (0, 0)]
       \<noteq> ring_as_line [(0, 0), (10, 0), (10, 10), (0, 0)] @ ring_as_line [(1, 1), (2, 1), (2, 2), (1, 1)]"
  by code_simp


theorem evil_polygon_first_ring_only_witness:
  "from_wkb_polygon log_point log_line (\<lambda>mn mx n wkb s. Inl AssertionFailed) 5
     \<lparr>wkb_items = polygon_items [[(0, 0), (10, 0), (10, 10), (0, 0)], [(1, 1), (2, 1), (2, 2), (1, 1)]],
      wkb_pos = 0\<rparr> []
   = Inr (\<lparr>wkb_items = polygon_items [[(0, 0), (10, 0), (10, 10), (0, 0)], [(1, 1), (2, 1), (2, 2), (1, 1)]],
           wkb_pos = 6\<rparr>,
          [FromLineLonLat 0 0 10 0, FromLineLonLat 10 0 10 10, FromLineLonLat 10 10 0 0])"
  using evil_polygon_first_ring_only [of "\<lambda>mn mx n wkb s. Inl AssertionFailed"] by simp

section \<open>The output over the zoom levels\<close>


declare output_dz_loop.simps [simp del]

lemma output_dz_loop_unfold:
  "output_dz_loop mz bound it lastq dz =
     (if dz \<le> bound
      then map (emitted_tile mz dz) (emit_key it lastq dz) @ output_dz_loop mz bound it lastq (dz + 1)
      else [])"
  by (subst output_dz_loop.simps) (simp add: emitted_tile_def emit_key_def Let_def)

lemma tile_zoom_emitted [simp]: "tile_zoom (emitted_tile mz dz qc) = mz - of_nat dz"
  by (simp add: tile_zoom_def emitted_tile_def)

lemma level_word_eq:
  assumes "d \<le> 31" and "e \<le> 31"
  shows "(mz :: uint32) - of_nat d = mz - of_nat e \<longleftrightarrow> d = e"
proof -
  have "(of_nat d :: uint32) = of_nat e \<longleftrightarrow> d = e"
    using assms by (simp add: word_of_nat_eq_iff take_bit_nat_eq_self)
  then show ?thesis by simp
qed

lemma filter_dz_loop:
  assumes "bound \<le> 31" and "e \<le> 31"
  shows "filter (\<lambda>t. tile_zoom t = mz - of_nat e) (output_dz_loop mz bound it lastq dz)
       = (if dz \<le> e \<and> e \<le> bound then map (emitted_tile mz e) (emit_key it lastq e) else [])"
  using assms
proof (induction mz bound it lastq dz rule: output_dz_loop.induct)
  case (1 mz bound it lastq dz)
  note b = \<open>bound \<le> 31\<close> and e = \<open>e \<le> 31\<close>
  show ?case
  proof (cases "dz \<le> bound")
    case False
    then show ?thesis by (subst output_dz_loop_unfold) auto
  next
    case True
    with b have d: "dz \<le> 31" by simp
    have here: "filter (\<lambda>t. tile_zoom t = mz - of_nat e) (map (emitted_tile mz dz) ks)
        = (if dz = e then map (emitted_tile mz dz) ks else [])" for ks
      by (induction ks) (simp_all add: level_word_eq [OF d e])
    have IH: "filter (\<lambda>t. tile_zoom t = mz - of_nat e) (output_dz_loop mz bound it lastq (dz + 1))
        = (if dz + 1 \<le> e \<and> e \<le> bound then map (emitted_tile mz e) (emit_key it lastq e) else [])"
    proof (cases "drop_bit (dz * 2) it = drop_bit (dz * 2) lastq")
      case True
      from "1.IH"(1) [OF \<open>dz \<le> bound\<close> refl True b e] show ?thesis .
    next
      case False
      from "1.IH"(2) [OF \<open>dz \<le> bound\<close> refl False refl b e] show ?thesis .
    qed
    show ?thesis
      apply (subst output_dz_loop_unfold)
      apply (simp only: True if_True filter_append here IH)
      using True apply auto
      done
  qed
qed


lemma zoom_dz_loop:
  assumes "t \<in> set (output_dz_loop mz bound it lastq dz)"
  shows "\<exists>e. e \<le> bound \<and> t \<in> set (map (emitted_tile mz e) (emit_key it lastq e))"
  using assms
proof (induction mz bound it lastq dz rule: output_dz_loop.induct)
  case (1 mz bound it lastq dz)
  from "1.prems" have le: "dz \<le> bound"
    and mem: "t \<in> set (map (emitted_tile mz dz) (emit_key it lastq dz))
              \<or> t \<in> set (output_dz_loop mz bound it lastq (dz + 1))"
    by (subst (asm) output_dz_loop_unfold, simp split: if_splits)+
  from mem show ?case
  proof
    assume "t \<in> set (map (emitted_tile mz dz) (emit_key it lastq dz))"
    with le show ?thesis by blast
  next
    assume rest: "t \<in> set (output_dz_loop mz bound it lastq (dz + 1))"
    show ?thesis
    proof (cases "drop_bit (dz * 2) it = drop_bit (dz * 2) lastq")
      case True
      from "1.IH"(1) [OF le refl True rest] show ?thesis .
    next
      case False
      from "1.IH"(2) [OF le refl False refl rest] show ?thesis .
    qed
  qed
qed

lemma filter_tiles_loop:
  assumes "bound \<le> 31" and "e \<le> bound"
  shows "filter (\<lambda>t. tile_zoom t = mz - of_nat e) (output_tiles_loop mz bound qs lastq)
       = map (emitted_tile mz e) (level_keys e qs lastq)"
proof (induction qs arbitrary: lastq)
  case Nil
  show ?case by simp
next
  case (Cons it qs)
  from assms have e: "e \<le> 31" by simp
  show ?case
    using assms(2) by (simp add: filter_dz_loop [OF assms(1) e] Cons.IH)
qed

lemma zoom_tiles_loop:
  assumes "t \<in> set (output_tiles_loop mz bound qs lastq)"
  shows "\<exists>e. e \<le> bound \<and> tile_zoom t = mz - of_nat e"
  using assms
proof (induction qs arbitrary: lastq)
  case Nil
  then show ?case by simp
next
  case (Cons it qs)
  from Cons.prems have "t \<in> set (output_dz_loop mz bound it lastq 0)
      \<or> t \<in> set (output_tiles_loop mz bound qs it)" by simp
  then show ?case
  proof
    assume "t \<in> set (output_dz_loop mz bound it lastq 0)"
    from zoom_dz_loop [OF this] show ?thesis by auto
  next
    assume "t \<in> set (output_tiles_loop mz bound qs it)"
    from Cons.IH [OF this] show ?thesis .
  qed
qed

lemma drop_bit_word_mono:
  assumes "(a :: 'a::len word) \<le> b"
  shows "drop_bit n a \<le> drop_bit n b"
proof -
  from assms have "unat a \<le> unat b" by (simp add: word_le_nat_alt)
  then have "unat a div 2 ^ n \<le> unat b div 2 ^ n" by (rule div_le_mono)
  then have "drop_bit n (unat a) \<le> drop_bit n (unat b)"
    by (simp only: drop_bit_eq_div)
  then show ?thesis
    by (simp only: word_le_nat_alt unat_drop_bit_eq)
qed

lemma level_keys_sorted:
  assumes "sorted (lastq # qs)"
  shows "sorted_wrt (<) (level_keys e qs lastq)
       \<and> (\<forall>k \<in> set (level_keys e qs lastq). drop_bit (e * 2) lastq < k)
       \<and> set (level_keys e qs lastq) = drop_bit (e * 2) ` set qs - {drop_bit (e * 2) lastq}"
  using assms
proof (induction qs arbitrary: lastq)
  case Nil
  show ?case by simp
next
  case (Cons it qs)
  let ?f = "drop_bit (e * 2) :: uint64 \<Rightarrow> uint64"
  from Cons.prems have s: "sorted (it # qs)" and le: "lastq \<le> it" by simp_all
  from Cons.IH [OF s] have so: "sorted_wrt (<) (level_keys e qs it)"
    and gt: "\<forall>k \<in> set (level_keys e qs it). ?f it < k"
    and st: "set (level_keys e qs it) = ?f ` set qs - {?f it}" by simp_all
  from le have fle: "?f lastq \<le> ?f it" by (rule drop_bit_word_mono)
  from s have ge: "\<forall>q \<in> set qs. ?f it \<le> ?f q" by (auto intro: drop_bit_word_mono)
  show ?case
  proof (cases "?f it = ?f lastq")
    case True
    with so gt st show ?thesis by (auto simp add: emit_key_def)
  next
    case False
    with fle have lt: "?f lastq < ?f it" by simp
    have "sorted_wrt (<) (?f it # level_keys e qs it)" using so gt by simp
    moreover have "\<forall>k \<in> set (?f it # level_keys e qs it). ?f lastq < k"
      using gt lt by auto
    moreover have "set (?f it # level_keys e qs it) = ?f ` set (it # qs) - {?f lastq}"
      using st lt ge by auto
    moreover have "level_keys e (it # qs) lastq = ?f it # level_keys e qs it"
      using False by (simp add: emit_key_def)
    ultimately show ?thesis by (simp only:)
  qed
qed


lemma drop_bit_less_power:
  assumes "(q :: uint64) < 2 ^ (2 * m)" and "e \<le> m" and "m \<le> 31"
  shows "drop_bit (e * 2) q < 2 ^ (2 * (m - e))"
proof (rule word_less_power_bitsI)
  from assms(3) show "2 * (m - e) < LENGTH(64)" by simp
next
  fix n
  assume "bit (drop_bit (e * 2) q) n"
  then have "bit q (e * 2 + n)" by (simp add: bit_drop_bit_eq)
  from word_less_power_bitsD [OF assms(1) this] assms(2) show "n < 2 * (m - e)" by simp
qed

lemma drop_bit_sentinel:
  assumes "e \<le> m" and "m \<le> 31"
  shows "drop_bit (e * 2) (push_bit (2 * m) 1 :: uint64) = 2 ^ (2 * (m - e))"
proof (rule bit_eqI)
  fix n
  from assms have "e * 2 + n = 2 * m \<longleftrightarrow> n = 2 * (m - e)" by auto
  moreover from assms have "2 * m < 64" "2 * (m - e) < 64" by simp_all
  ultimately show "bit (drop_bit (e * 2) (push_bit (2 * m) 1 :: uint64)) n
      = bit (2 ^ (2 * (m - e)) :: uint64) n"
    by (auto simp add: bit_drop_bit_eq bit_push_bit_iff bit_exp_iff bit_1_iff)
qed

lemma level_keys_from_sentinel:
  assumes "sorted qs" and "\<forall>q \<in> set qs. q < 2 ^ (2 * m)" and "e \<le> m" and "m \<le> 31"
  shows "sorted_wrt (<) (level_keys e qs (push_bit (2 * m) 1))
       \<and> set (level_keys e qs (push_bit (2 * m) 1)) = drop_bit (e * 2) ` set qs"
proof (cases qs)
  case Nil
  then show ?thesis by simp
next
  case (Cons it r)
  let ?f = "drop_bit (e * 2) :: uint64 \<Rightarrow> uint64"
  from assms(2) Cons have "it < 2 ^ (2 * m)" by simp
  from drop_bit_less_power [OF this assms(3,4)]
  have "?f it \<noteq> 2 ^ (2 * (m - e))" by auto
  then have "?f it \<noteq> ?f (push_bit (2 * m) 1)"
    by (simp only: drop_bit_sentinel [OF assms(3,4)] not_False_eq_True)
  then have eq: "level_keys e (it # r) (push_bit (2 * m) 1) = ?f it # level_keys e r it"
    by (simp add: emit_key_def)
  from assms(1) Cons have "sorted (it # r)" by simp
  from level_keys_sorted [OF this, of e]
  have so: "sorted_wrt (<) (level_keys e r it)"
    and gt: "\<forall>k \<in> set (level_keys e r it). ?f it < k"
    and st: "set (level_keys e r it) = ?f ` set r - {?f it}" by simp_all
  show ?thesis unfolding Cons eq using so gt st by auto
qed

lemma decode_then_encode:
  assumes "qc < 2 ^ (2 * unat z)" and "unat z \<le> 31"
  shows "xy_to_quadkey (xy_x (quadkey_to_xy qc z)) (xy_y (quadkey_to_xy qc z)) z = qc"
proof (rule bit_eqI)
  fix n
  have half: "n < 2 * unat z \<Longrightarrow> n div 2 < unat z \<and> n div 2 < 32"
    using assms(2) by auto
  have rebuild: "even n \<Longrightarrow> 2 * (n div 2) = n" "odd n \<Longrightarrow> 2 * (n div 2) + 1 = n"
    by (auto elim: oddE)
  have rng: "bit qc n \<Longrightarrow> n < 2 * unat z"
    by (rule word_less_power_bitsD [OF assms(1)])
  show "bit (xy_to_quadkey (xy_x (quadkey_to_xy qc z)) (xy_y (quadkey_to_xy qc z)) z) n = bit qc n"
    using half rebuild rng
    by (auto simp add: quadkey_to_xy_eq bit_xy_to_quadkey bit_even_bits bit_odd_bits)
qed

lemma unat_zoom_level:
  assumes "unat (mz :: uint32) \<le> 31" and "e \<le> unat mz"
  shows "unat (mz - of_nat e) = unat mz - e"
proof -
  from assms have "e < 2 ^ 32" by simp
  then have u: "unat (of_nat e :: uint32) = e" by (simp add: unat_of_nat)
  with assms(2) have "(of_nat e :: uint32) \<le> mz" by (simp add: word_le_nat_alt)
  then show ?thesis by (simp add: unat_sub u)
qed

lemma tile_quadkey_emitted:
  assumes "q < 2 ^ (2 * unat mz)" and "e \<le> unat mz" and "unat mz \<le> 31"
  shows "tile_quadkey (emitted_tile mz e (drop_bit (e * 2) q)) = drop_bit (e * 2) q"
proof -
  have u: "unat (mz - of_nat e) = unat mz - e" using assms(3,2) by (rule unat_zoom_level)
  from drop_bit_less_power [OF assms] have "drop_bit (e * 2) q < 2 ^ (2 * unat (mz - of_nat e))"
    by (simp add: u)
  moreover have "unat (mz - of_nat e) \<le> 31" using assms(3) by (simp add: u)
  ultimately show ?thesis
    by (simp add: tile_quadkey_def emitted_tile_def decode_then_encode)
qed

lemma emitted_tile_ancestor:
  assumes "e \<le> unat mz" and "unat mz \<le> 31"
  shows "emitted_tile mz e (drop_bit (e * 2) q) = ancestor_tile mz q e"
proof -
  have u: "unat (mz - of_nat e) = unat mz - e" using assms(2,1) by (rule unat_zoom_level)
  have "even_bits (drop_bit (e * 2) q) (unat mz - e) = drop_bit e (even_bits q (unat mz))"
    using assms by (intro bit_eqI) (auto simp add: bit_even_bits bit_drop_bit_eq algebra_simps)
  moreover have "odd_bits (drop_bit (e * 2) q) (unat mz - e) = drop_bit e (odd_bits q (unat mz))"
    using assms by (intro bit_eqI) (auto simp add: bit_odd_bits bit_drop_bit_eq algebra_simps)
  ultimately show ?thesis
    by (simp add: emitted_tile_def ancestor_tile_def quadkey_to_xy_eq u Let_def)
qed

lemma distinct_by_classes:
  assumes "\<And>v. distinct (filter (\<lambda>t. g t = v) xs)"
  shows "distinct xs"
  using assms
proof (induction xs)
  case Nil
  show ?case by simp
next
  case (Cons x xs)
  from Cons.prems [of "g x"] have "x \<notin> set (filter (\<lambda>t. g t = g x) xs)" by simp
  then have "x \<notin> set xs" by simp
  moreover have "distinct (filter (\<lambda>t. g t = v) xs)" for v
    using Cons.prems [of v] by (simp split: if_splits)
  then have "distinct xs" by (rule Cons.IH)
  ultimately show ?case by simp
qed


text \<open>
  C2. Pyramid output. For an object with \<open>maxzoom \<le> 31\<close> whose stored quadkeys are in
  range (the invariant of C9) and every \<open>minzoom \<le> maxzoom\<close>,
  \<^verbatim>\<open>output_and_destroy\<close> returns normally; the tiles it writes are exactly the
  ancestors of the stored quadkeys at the zoom levels from \<open>minzoom\<close> to \<open>maxzoom\<close>
  (\<open>d = maxzoom - zoom\<close> levels up, for \<open>d\<close> from 0 to \<open>maxzoom - minzoom\<close>); no tile
  is written twice, also when several stored quadkeys share it; and for every zoom level
  the tiles of that level are written in strictly ascending order of their quadkeys.
\<close>

theorem pyramid_output:
  assumes "maxzoom s \<le> 31" and "minzoom \<le> maxzoom s" and "quadkeys_in_range s"
  shows "\<exists>out. output_and_destroy s minzoom = Inr out
     \<and> set out = {ancestor_tile (maxzoom s) q d | q d.
                     q \<in> set (m_dirty_tiles s) \<and> d \<le> unat (maxzoom s - minzoom)}
     \<and> distinct out
     \<and> (\<forall>v. sorted_wrt (<) (map tile_quadkey (filter (\<lambda>t. tile_zoom t = v) out)))"
proof -
  let ?M = "maxzoom s"
  let ?m = "unat (maxzoom s)"
  let ?B = "unat (maxzoom s - minzoom)"
  let ?S = "sort (m_dirty_tiles s)"
  let ?sent = "push_bit (2 * ?m) 1 :: uint64"
  let ?out = "output_tiles_loop ?M ?B ?S ?sent"
  let ?keys = "\<lambda>e. level_keys e ?S ?sent"
  from assms(1) have m31: "?m \<le> 31" by (simp add: word_le_nat_alt)
  from assms(2) have Bm: "?B \<le> ?m" by (simp add: unat_sub)
  from Bm m31 have B31: "?B \<le> 31" by simp
  from assms(2) have out: "output_and_destroy s minzoom = Inr ?out"
    by (simp add: output_and_destroy_def)
  have S1: "sorted ?S" and S2: "set ?S = set (m_dirty_tiles s)" by simp_all
  from assms(3) have S3: "\<forall>q \<in> set ?S. q < 2 ^ (2 * ?m)"
    by (simp add: quadkeys_in_range_def list_all_iff)
  have level: "filter (\<lambda>t. tile_zoom t = ?M - of_nat e) ?out = map (emitted_tile ?M e) (?keys e)"
    if "e \<le> ?B" for e
    using B31 that by (rule filter_tiles_loop)
  have keys: "sorted_wrt (<) (?keys e) \<and> set (?keys e) = drop_bit (e * 2) ` set ?S"
    if "e \<le> ?B" for e
    using S1 S3 _ m31 by (rule level_keys_from_sentinel) (use that Bm in simp)
  have key_of: "map tile_quadkey (map (emitted_tile ?M e) (?keys e)) = ?keys e"
    if "e \<le> ?B" for e
  proof -
    have "tile_quadkey (emitted_tile ?M e k) = k" if "k \<in> set (?keys e)" for k
    proof -
      from that keys [OF \<open>e \<le> ?B\<close>] obtain q where q: "q \<in> set ?S" and k: "k = drop_bit (e * 2) q"
        by auto
      from S3 q have "q < 2 ^ (2 * ?m)" by simp
      moreover from \<open>e \<le> ?B\<close> Bm have "e \<le> ?m" by simp
      ultimately show ?thesis unfolding k using m31 by (rule tile_quadkey_emitted)
    qed
    then have "map (\<lambda>k. tile_quadkey (emitted_tile ?M e k)) (?keys e) = ?keys e"
      by (simp add: map_idI)
    then show ?thesis by (simp add: comp_def)
  qed
  have zoom: "\<exists>e. e \<le> ?B \<and> tile_zoom t = ?M - of_nat e" if "t \<in> set ?out" for t
    using that by (rule zoom_tiles_loop)
  have ordered: "sorted_wrt (<) (map tile_quadkey (filter (\<lambda>t. tile_zoom t = v) ?out))" for v
  proof (cases "\<exists>e. e \<le> ?B \<and> v = ?M - of_nat e")
    case True
    then obtain e where e: "e \<le> ?B" and v: "v = ?M - of_nat e" by blast
    show ?thesis unfolding v level [OF e] key_of [OF e] using keys [OF e] by simp
  next
    case False
    with zoom have "filter (\<lambda>t. tile_zoom t = v) ?out = []"
      by (auto simp add: filter_empty_conv)
    then show ?thesis by simp
  qed
  have "distinct ?out"
  proof (rule distinct_by_classes [where g = tile_zoom])
    fix v
    from ordered [of v] have "distinct (map tile_quadkey (filter (\<lambda>t. tile_zoom t = v) ?out))"
      by (simp add: strict_sorted_iff)
    then show "distinct (filter (\<lambda>t. tile_zoom t = v) ?out)"
      by (simp add: distinct_map)
  qed
  moreover have "set ?out = {ancestor_tile ?M q d | q d. q \<in> set (m_dirty_tiles s) \<and> d \<le> ?B}"
  proof (intro set_eqI iffI)
    fix t
    assume t: "t \<in> set ?out"
    from zoom [OF t] obtain e where e: "e \<le> ?B" and z: "tile_zoom t = ?M - of_nat e" by blast
    from t z have "t \<in> set (filter (\<lambda>t. tile_zoom t = ?M - of_nat e) ?out)" by simp
    then have "t \<in> emitted_tile ?M e ` set (?keys e)" unfolding level [OF e] by simp
    with keys [OF e] S2 obtain q where q: "q \<in> set (m_dirty_tiles s)"
      and "t = emitted_tile ?M e (drop_bit (e * 2) q)" by auto
    moreover from e Bm have "e \<le> ?m" by simp
    ultimately have "t = ancestor_tile ?M q e" using m31 by (simp add: emitted_tile_ancestor)
    with q e show "t \<in> {ancestor_tile ?M q d | q d. q \<in> set (m_dirty_tiles s) \<and> d \<le> ?B}"
      by blast
  next
    fix t
    assume "t \<in> {ancestor_tile ?M q d | q d. q \<in> set (m_dirty_tiles s) \<and> d \<le> ?B}"
    then obtain q d where q: "q \<in> set (m_dirty_tiles s)" and d: "d \<le> ?B"
      and t: "t = ancestor_tile ?M q d" by blast
    from d Bm have "d \<le> ?m" by simp
    then have "t = emitted_tile ?M d (drop_bit (d * 2) q)"
      using m31 by (simp add: t emitted_tile_ancestor)
    moreover from q keys [OF d] S2 have "drop_bit (d * 2) q \<in> set (?keys d)" by auto
    ultimately have "t \<in> set (map (emitted_tile ?M d) (?keys d))" by simp
    then have "t \<in> set (filter (\<lambda>t. tile_zoom t = ?M - of_nat d) ?out)"
      by (simp only: level [OF d])
    then show "t \<in> set ?out" by simp
  qed
  ultimately show ?thesis using out ordered by blast
qed

theorem pyramid_output_witness:
  "maxzoom (zoom2_state [3, 1, 14, 12]) \<le> 31 \<and> (0::uint32) \<le> maxzoom (zoom2_state [3, 1, 14, 12])
   \<and> quadkeys_in_range (zoom2_state [3, 1, 14, 12])
   \<and> output_and_destroy (zoom2_state [3, 1, 14, 12]) 0
       = Inr [(1, 0, 2), (0, 0, 1), (0, 0, 0), (1, 1, 2), (2, 2, 2), (1, 1, 1), (2, 3, 2)]
   \<and> distinct (projr (output_and_destroy (zoom2_state [3, 1, 14, 12]) 0))
   \<and> sorted_wrt (<) (map tile_quadkey
         (filter (\<lambda>t. tile_zoom t = 2) (projr (output_and_destroy (zoom2_state [3, 1, 14, 12]) 0))))"
proof -
  have h1: "maxzoom (zoom2_state [3, 1, 14, 12]) \<le> 31"
    and h2: "(0::uint32) \<le> maxzoom (zoom2_state [3, 1, 14, 12])"
    by (simp_all add: zoom2_state_simps)
  have h3: "quadkeys_in_range (zoom2_state [3, 1, 14, 12])"
    by (simp add: quadkeys_in_range_def zoom2_state_simps)
  have ev: "output_and_destroy (zoom2_state [3, 1, 14, 12]) 0
       = Inr [(1, 0, 2), (0, 0, 1), (0, 0, 0), (1, 1, 2), (2, 2, 2), (1, 1, 1), (2, 3, 2)]"
    by code_simp
  from pyramid_output [OF h1 h2 h3] obtain out
    where "output_and_destroy (zoom2_state [3, 1, 14, 12]) 0 = Inr out" and "distinct out"
      and "\<forall>v. sorted_wrt (<) (map tile_quadkey (filter (\<lambda>t. tile_zoom t = v) out))"
    by blast
  then have "distinct (projr (output_and_destroy (zoom2_state [3, 1, 14, 12]) 0))"
    and "sorted_wrt (<) (map tile_quadkey
         (filter (\<lambda>t. tile_zoom t = 2) (projr (output_and_destroy (zoom2_state [3, 1, 14, 12]) 0))))"
    by simp_all
  with h1 h2 h3 ev show ?thesis by (simp only: simp_thms)
qed

end
